theory Spec2Isabelle
  imports Complex_Main
begin

section \<open>Phase Calculator: a shallow embedding of PhaseCalculator.cpp\<close>

text \<open>
  The plugin computes on \<^verbatim>\<open>float\<close> and \<^verbatim>\<open>double\<close>. Both are modelled by \<^typ>\<open>real\<close>:
  comparisons, additions and divisions are the exact ones, so every statement below
  is about the control flow and the formulas of the code, not about rounding.
  A sample block \<^verbatim>\<open>float* wp\<close> with its length \<^verbatim>\<open>nSamples\<close> is a list together
  with a length; indices are natural numbers and the sentinel \<^verbatim>\<open>-1\<close> of
  \<^verbatim>\<open>endInd\<close> and \<^verbatim>\<open>endIndex\<close> is \<^term>\<open>None\<close>. \<^verbatim>\<open>glitchLimit\<close> is a C++
  \<^verbatim>\<open>int\<close> and stays an \<^typ>\<open>int\<close>.
\<close>

subsection \<open>Glitch unwrapping (PhaseCalculator::unwrapBuffer)\<close>

text \<open>
  The inner search loop of unwrapBuffer:
  \<^verbatim>\<open>for (currInd = startInd + 1; currInd <= startInd + glitchLimit && currInd < nSamples; currInd++)\<close>.
  It returns \<^verbatim>\<open>endInd\<close> together with the final value of \<^verbatim>\<open>currInd\<close>, which the
  code inspects after the loop. \<^verbatim>\<open>abs\<close> is the absolute value of a \<^verbatim>\<open>float\<close>.
\<close>

function unwrapSearch :: "int \<Rightarrow> real list \<Rightarrow> nat \<Rightarrow> real \<Rightarrow> nat \<Rightarrow> nat \<Rightarrow> nat option \<times> nat" where
  "unwrapSearch glitchLimit wp nSamples diff startInd currInd =
     (if int currInd \<le> int startInd + glitchLimit \<and> currInd < nSamples then
        (let diff2 = wp ! currInd - wp ! (currInd - 1) in
         if \<bar>diff2\<bar> > 180 \<and> ((diff > 0) \<noteq> (diff2 > 0))
         then (Some currInd, currInd)
         else unwrapSearch glitchLimit wp nSamples diff startInd (Suc currInd))
      else (None, currInd))"
  by pat_completeness auto
termination
  by (relation "measure (\<lambda>(glitchLimit, wp, nSamples, diff, startInd, currInd). nSamples - currInd)") auto

declare unwrapSearch.simps [simp del]

text \<open>\<^verbatim>\<open>for (int i = startInd; i < endInd; i++) wp[i] -= 360 * (diff / abs(diff));\<close>\<close>

definition unwrapRange :: "real list \<Rightarrow> nat \<Rightarrow> nat \<Rightarrow> real \<Rightarrow> real list" where
  "unwrapRange wp startInd endInd diff =
     fold (\<lambda>i w. w[i := w ! i - 360 * (diff / \<bar>diff\<bar>)]) [startInd..<endInd] wp"

text \<open>
  The outer loop, from a given \<^verbatim>\<open>startInd\<close>. When a section was unwrapped the code
  sets \<^verbatim>\<open>startInd = endInd\<close> and the loop header then increments it.
\<close>

function unwrapLoop :: "int \<Rightarrow> real \<Rightarrow> nat \<Rightarrow> real list \<Rightarrow> nat \<Rightarrow> real list" where
  "unwrapLoop glitchLimit lastSample nSamples wp startInd =
     (if Suc startInd < nSamples then
        (let diff = wp ! startInd - (if startInd = 0 then lastSample else wp ! (startInd - 1)) in
         if \<bar>diff\<bar> > 180 then
           (let found = unwrapSearch glitchLimit wp nSamples diff startInd (Suc startInd);
                endInd = (if fst found = None \<and> diff > 0 \<and> snd found = nSamples
                          then Some nSamples else fst found)
            in case endInd of
                 None \<Rightarrow> unwrapLoop glitchLimit lastSample nSamples wp (Suc startInd)
               | Some e \<Rightarrow>
                   unwrapLoop glitchLimit lastSample nSamples
                     (unwrapRange wp startInd e diff) (Suc e))
         else unwrapLoop glitchLimit lastSample nSamples wp (Suc startInd))
      else wp)"
  by pat_completeness auto
termination
proof (relation "measure (\<lambda>(glitchLimit, lastSample, nSamples, wp, startInd). nSamples - startInd)")
  fix glitchLimit :: int and lastSample :: real and nSamples :: nat and wp :: "real list"
    and startInd :: nat and diff :: real and found :: "nat option \<times> nat"
    and endInd :: "nat option" and e :: nat
  assume lt: "Suc startInd < nSamples"
    and found: "found = unwrapSearch glitchLimit wp nSamples diff startInd (Suc startInd)"
    and endInd: "endInd = (if fst found = None \<and> 0 < diff \<and> snd found = nSamples
                           then Some nSamples else fst found)"
    and e: "endInd = Some e"
  have found_ge: "currInd \<le> e"
    if "fst (unwrapSearch glitchLimit wp nSamples diff startInd currInd) = Some e" for currInd
    using that
  proof (induction glitchLimit wp nSamples diff startInd currInd rule: unwrapSearch.induct)
    case (1 glitchLimit wp nSamples diff startInd currInd)
    from "1.prems" consider
        (hit) "e = currInd"
      | (miss) "int currInd \<le> int startInd + glitchLimit \<and> currInd < nSamples"
          "\<not> (\<bar>wp ! currInd - wp ! (currInd - 1)\<bar> > 180
              \<and> ((diff > 0) \<noteq> (wp ! currInd - wp ! (currInd - 1) > 0)))"
          "fst (unwrapSearch glitchLimit wp nSamples diff startInd (Suc currInd)) = Some e"
      by (subst (asm) unwrapSearch.simps) (auto simp: Let_def split: if_splits)
    then show ?case
    proof cases
      case hit
      then show ?thesis by simp
    next
      case miss
      from "1.IH" [OF miss(1) refl miss(2) miss(3)] show ?thesis by simp
    qed
  qed
  have "startInd < e"
  proof (cases "fst found = None \<and> 0 < diff \<and> snd found = nSamples")
    case True
    with endInd e lt show ?thesis by simp
  next
    case False
    with endInd e have "fst found = Some e" by simp
    with found have "Suc startInd \<le> e" by (simp add: found_ge)
    then show ?thesis by simp
  qed
  with lt show "((glitchLimit, lastSample, nSamples, unwrapRange wp startInd e diff, Suc e),
                 (glitchLimit, lastSample, nSamples, wp, startInd))
                \<in> measure (\<lambda>(glitchLimit, lastSample, nSamples, wp, startInd). nSamples - startInd)"
    by simp
qed auto

declare unwrapLoop.simps [simp del]

definition unwrapBuffer :: "int \<Rightarrow> real \<Rightarrow> real list \<Rightarrow> nat \<Rightarrow> real list" where
  "unwrapBuffer glitchLimit lastSample wp nSamples = unwrapLoop glitchLimit lastSample nSamples wp 0"

subsection \<open>Start-of-buffer smoothing (PhaseCalculator::smoothBuffer)\<close>

text \<open>
  The search loop \<^verbatim>\<open>for (int i = 1; i <= actualMaxSL; i++)\<close>. It returns
  \<^verbatim>\<open>endIndex\<close> and the buffer, in which the corner case has added 360 to the
  sample found.
\<close>

function smoothSearch :: "real \<Rightarrow> int \<Rightarrow> real list \<Rightarrow> nat \<Rightarrow> nat option \<times> real list" where
  "smoothSearch lastSample actualMaxSL wp i =
     (if int i \<le> actualMaxSL then
        (if wp ! i > lastSample then (Some i, wp)
         else if wp ! i - wp ! (i - 1) > 180 \<and> wp ! i + 360 > lastSample
              then (Some i, wp[i := wp ! i + 360])
         else smoothSearch lastSample actualMaxSL wp (Suc i))
      else (None, wp))"
  by pat_completeness auto
termination
  by (relation "measure (\<lambda>(lastSample, actualMaxSL, wp, i). nat (actualMaxSL + 1 - int i))") auto

declare smoothSearch.simps [simp del]

text \<open>
  \<^verbatim>\<open>float slope = (wp[endIndex] - lastSample[chan]) / (endIndex + 1);\<close>
  \<^verbatim>\<open>for (int i = 0; i < endIndex; i++) wp[i] = lastSample[chan] + (i + 1) * slope;\<close>
\<close>

definition interpolate :: "real \<Rightarrow> real list \<Rightarrow> nat \<Rightarrow> real list" where
  "interpolate lastSample wp endIndex =
     (let slope = (wp ! endIndex - lastSample) / (real endIndex + 1)
      in fold (\<lambda>i w. w[i := lastSample + (real i + 1) * slope]) [0..<endIndex] wp)"

definition smoothBuffer :: "int \<Rightarrow> real \<Rightarrow> real list \<Rightarrow> nat \<Rightarrow> real list" where
  "smoothBuffer glitchLimit lastSample wp nSamples =
     (let actualMaxSL = min glitchLimit (int nSamples - 1);
          diff = wp ! 0 - lastSample
      in if diff < 0 \<and> diff > - 180 then
           (case smoothSearch lastSample actualMaxSL wp 1 of
              (None, wp') \<Rightarrow> wp'
            | (Some endIndex, wp') \<Rightarrow> interpolate lastSample wp' endIndex)
         else wp)"

subsection \<open>Autoregressive prediction (arPredict)\<close>

definition AR_ORDER :: nat where
  "AR_ORDER = 20"

text \<open>
  \<^verbatim>\<open>inner_product<double*, reverse_iterator<double*>, double>(params, params + AR_ORDER, dataIter, 0)\<close>
  with \<^verbatim>\<open>dataIter = reverse_iterator<double*>(writeStart + i)\<close>: the accumulator
  starts at 0 and adds \<^verbatim>\<open>params[k] * dataIter[k]\<close> for k = 0, 1, ..., where
  \<^verbatim>\<open>dataIter[k]\<close> is the element \<^verbatim>\<open>k + 1\<close> places before position \<open>pos\<close>.
  The code assumes AR_ORDER samples before \<open>pos\<close>; with fewer it reads before the
  array, which no statement below relies on.
\<close>

definition inner_product :: "real list \<Rightarrow> real list \<Rightarrow> nat \<Rightarrow> real" where
  "inner_product params data pos =
     fold (\<lambda>k acc. acc + params ! k * data ! (pos - 1 - k)) [0..<AR_ORDER] 0"

text \<open>
  \<^verbatim>\<open>for (i = 0; i < writeNum; i++) writeStart[i] = -inner_product(...)\<close>, where
  \<^verbatim>\<open>writeStart\<close> points at index \<open>writeStart\<close> of the array \<open>data\<close>.
\<close>

definition arPredict :: "real list \<Rightarrow> nat \<Rightarrow> nat \<Rightarrow> real list \<Rightarrow> real list" where
  "arPredict data writeStart writeNum params =
     fold (\<lambda>i d. d[writeStart + i := - inner_product params d (writeStart + i)]) [0..<writeNum] data"

subsection \<open>Hilbert transform in the frequency domain (hilbertManip)\<close>

text \<open>
  Every iteration of the loop reads and writes \<^verbatim>\<open>wp[i]\<close> only, so the loop is a map
  over the indices. \<^verbatim>\<open>wp[i] *= (2.0 / (double)n)\<close> and \<^verbatim>\<open>wp[i] /= (double)n\<close>
  multiply and divide a complex number by a real one.
\<close>

definition hilbertManip :: "complex list \<Rightarrow> complex list" where
  "hilbertManip fftData =
     (let n = length fftData;
          lastPosFreq = round (of_int \<lceil>real n / 2\<rceil> - 1 :: real);
          firstNegFreq = round (of_int \<lfloor>real n / 2\<rfloor> + 1 :: real)
      in map (\<lambda>i. if i > 0 \<and> int i \<le> lastPosFreq then fftData ! i * of_real (2 / real n)
                  else if int i < firstNegFreq then fftData ! i / of_real (real n)
                  else 0)
             [0..<n])"

subsection \<open>The history fifo\<close>

text \<open>
  Modelled from the spec: the host library's \<^verbatim>\<open>AbstractFifo\<close> and the sample buffer it
  manages (\<^verbatim>\<open>fifoManager[chan]\<close> with \<^verbatim>\<open>historyFifo\<close>) are not part of the sources.
  The spec's ring buffer has capacity \<^verbatim>\<open>historyLength + 1\<close>, one slot of which is never
  used, appends new samples, evicts the oldest and is read oldest-first. The model keeps
  the buffer size and the logical contents, oldest sample first.
\<close>

record AbstractFifo =
  bufferSize :: nat
  contents :: "real list"

definition getNumReady :: "AbstractFifo \<Rightarrow> nat" where
  "getNumReady af = length (contents af)"

definition getFreeSpace :: "AbstractFifo \<Rightarrow> nat" where
  "getFreeSpace af = bufferSize af - getNumReady af - 1"

definition finishedRead :: "nat \<Rightarrow> AbstractFifo \<Rightarrow> AbstractFifo" where
  "finishedRead numRead af = af\<lparr>contents := drop numRead (contents af)\<rparr>"

definition prepareToRead :: "nat \<Rightarrow> AbstractFifo \<Rightarrow> real list" where
  "prepareToRead numWanted af = take numWanted (contents af)"

definition reset :: "AbstractFifo \<Rightarrow> AbstractFifo" where
  "reset af = af\<lparr>contents := []\<rparr>"

text \<open>
  moveToFifo: \<^verbatim>\<open>prepareToWrite\<close> grants at most the free space, the granted samples are
  copied from \<^verbatim>\<open>from\<close> starting at index \<^verbatim>\<open>start\<close>, and \<^verbatim>\<open>finishedWrite\<close> makes
  them readable.
\<close>

definition moveToFifo :: "AbstractFifo \<Rightarrow> real list \<Rightarrow> nat \<Rightarrow> nat \<Rightarrow> AbstractFifo" where
  "moveToFifo af from start nData =
     af\<lparr>contents := contents af @ take (min nData (getFreeSpace af)) (drop start from)\<rparr>"

subsection \<open>Plugin state\<close>

datatype ChannelState = NOT_FULL | FULL_NO_AR | FULL_AR

text \<open>
  Modelled from the spec: the host's channel-type tag (primary or auxiliary); the code
  compares it with \<^verbatim>\<open>ADC_CHANNEL\<close> and \<^verbatim>\<open>AUX_CHANNEL\<close>.
\<close>

datatype ChannelType = HEADSTAGE_CHANNEL | AUX_CHANNEL | ADC_CHANNEL

text \<open>
  The numerical libraries the plugin calls: the band-pass filter of a channel as a
  machine that consumes one sample at a time (\<^verbatim>\<open>filters[chan]->process\<close>), the two
  FFTW plans (\<^verbatim>\<open>pForward\<close>, \<^verbatim>\<open>pBackward\<close>), \<^verbatim>\<open>std::arg\<close> and the Burg estimator
  \<^verbatim>\<open>ARMaxEntropy\<close>. They are parameters of the model.
\<close>

record 'f prims =
  filterSample :: "'f \<Rightarrow> real \<Rightarrow> 'f \<times> real"
  fftForward :: "real list \<Rightarrow> complex list"
  fftBackward :: "complex list \<Rightarrow> complex list"
  stdArg :: "complex \<Rightarrow> real"
  ARMaxEntropy :: "real list \<Rightarrow> real list"

text \<open>The fields of PhaseCalculator that exist once per input channel.\<close>

record 'f channel =
  shouldProcessChannel :: bool
  chanType :: ChannelType
  filters :: 'f
  fifoManager :: AbstractFifo
  chanState :: ChannelState
  sharedDataBuffer :: "real list"
  dataToProcess :: "real list"
  arParams :: "real list"
  lastSample :: real

text \<open>The customizable parameters read by \<^verbatim>\<open>process\<close>.\<close>

record settings =
  processLength :: nat
  numFuture :: nat
  historyLength :: nat
  glitchLimit :: int
  processADC :: bool

text \<open>
  The warning flag, and the messages handed to \<^verbatim>\<open>CoreServices::sendStatusMessage\<close>
  so far.
\<close>

record warnings =
  haveSentWarning :: bool
  statusMessages :: "string list"

text \<open>\<^verbatim>\<open>const double PI = 3.1415926535897;\<close>\<close>

definition PI :: real where
  "PI = 3.1415926535897"

subsection \<open>PhaseCalculator::process\<close>

text \<open>\<^verbatim>\<open>filters[chan]->process(nSamples, &wpBuffer)\<close>: the filter runs over the block in place.\<close>

fun filterProcess :: "('f \<Rightarrow> real \<Rightarrow> 'f \<times> real) \<Rightarrow> 'f \<Rightarrow> real list \<Rightarrow> 'f \<times> real list" where
  "filterProcess step f [] = (f, [])"
| "filterProcess step f (x # xs) =
     (let (f1, y) = step f x; (f2, ys) = filterProcess step f1 xs in (f2, y # ys))"

text \<open>\<^verbatim>\<open>buffer.clear(chan, start, num)\<close> zeroes \<^verbatim>\<open>num\<close> samples from \<^verbatim>\<open>start\<close>.\<close>

definition clear :: "real list \<Rightarrow> nat \<Rightarrow> nat \<Rightarrow> real list" where
  "clear wp start num = fold (\<lambda>i w. w[i := 0]) [start..<start + num] wp"

text \<open>
  The critical section of \<^verbatim>\<open>process\<close>: \<^verbatim>\<open>sharedDataBuffer[chan]->set(i, ...)\<close> for the
  samples read from the fifo, from index 0 on; \<^verbatim>\<open>set\<close> appends when the index is the
  current size.
\<close>

definition writeShared :: "real list \<Rightarrow> real list \<Rightarrow> real list" where
  "writeShared sdb fromFifo = fromFifo @ drop (length fromFifo) sdb"

text \<open>\<^verbatim>\<open>FFTWArray::copyFrom(fromArr, num)\<close> with \<^verbatim>\<open>startInd = 0\<close>.\<close>

definition copyFrom :: "real list \<Rightarrow> real list \<Rightarrow> nat \<Rightarrow> real list" where
  "copyFrom data fromArr num = map (\<lambda>i. if i < num then fromArr ! i else data ! i) [0..<length data]"

text \<open>
  The window of a channel in state FULL_AR: the shared buffer copied to
  \<^verbatim>\<open>dataToProcess\<close>, extended by the AR prediction from index \<^verbatim>\<open>historyLength\<close> with the
  parameters copied to \<^verbatim>\<open>currParams\<close>. Reading the host library's array with
  \<^verbatim>\<open>operator[]\<close> gives 0 outside its range.
\<close>

definition predictWindow :: "settings \<Rightarrow> real list \<Rightarrow> real list \<Rightarrow> real list \<Rightarrow> real list" where
  "predictWindow cfg dtp sdb params =
     (let d1 = copyFrom dtp sdb (historyLength cfg);
          currParams = map (\<lambda>i. if i < length params then params ! i else 0) [0..<AR_ORDER]
      in arPredict d1 (historyLength cfg) (numFuture cfg) currParams)"

text \<open>\<^verbatim>\<open>pForward[chan]->execute(); hilbertManip(*(fftData[chan])); pBackward[chan]->execute();\<close>\<close>

definition hilbert :: "'f prims \<Rightarrow> real list \<Rightarrow> complex list" where
  "hilbert P window = fftBackward P (hilbertManip (fftForward P window))"

text \<open>
  \<^verbatim>\<open>wpBuffer[i + startIndex] = (float)(std::arg(rpProcess[i]) * (180.0 / PI))\<close> for
  \<^verbatim>\<open>i < nSamplesToProcess\<close>, where \<^verbatim>\<open>rpProcess\<close> points at index
  \<^verbatim>\<open>historyLength - nSamplesToProcess\<close> of \<^verbatim>\<open>dataOut\<close>.
\<close>

definition writePhase :: "'f prims \<Rightarrow> complex list \<Rightarrow> nat \<Rightarrow> real list \<Rightarrow> nat \<Rightarrow> nat \<Rightarrow> real list" where
  "writePhase P dataOut rpStart wpBuffer startIndex nSamplesToProcess =
     fold (\<lambda>i w. w[i + startIndex := stdArg P (dataOut ! (rpStart + i)) * (180 / PI)])
          [0..<nSamplesToProcess] wpBuffer"

text \<open>
  The body of the channel loop of \<^verbatim>\<open>process\<close> is split at its comments.
  \<open>ingest\<close> is the part from the filter to the update of the channel state: the
  block is filtered, an overlong block is cut to its last \<^verbatim>\<open>historyLength\<close> samples
  (the rest is cleared and the warning sent once), the samples are moved to the fifo
  and, when the fifo is or becomes full, the fifo is copied to the shared buffer.
  \<^verbatim>\<open>max(nSamples - historyLength, 0)\<close> is the truncating subtraction of natural
  numbers; \<^verbatim>\<open>nSamplesToClear\<close> can be negative and is an \<^typ>\<open>int\<close>.
\<close>

definition startIndexOf :: "settings \<Rightarrow> real list \<Rightarrow> nat" where
  "startIndexOf cfg buffer = length buffer - historyLength cfg"

definition ingest ::
  "'f prims \<Rightarrow> settings \<Rightarrow> warnings \<Rightarrow> 'f channel \<Rightarrow> real list \<Rightarrow> warnings \<times> 'f channel \<times> real list" where
  "ingest P cfg w ch buffer =
     (let nSamples = length buffer;
          (filters1, wpBuffer0) = filterProcess (filterSample P) (filters ch) buffer;
          startIndex = startIndexOf cfg buffer;
          nSamplesToProcess = nSamples - startIndex;
          wpBuffer1 = (if startIndex \<noteq> 0 then clear wpBuffer0 0 startIndex else wpBuffer0);
          w1 = (if startIndex \<noteq> 0 \<and> \<not> haveSentWarning w
                then w\<lparr>statusMessages := statusMessages w @
                         [''WARNING: Phase Calculator buffer is shorter than the sample buffer!''],
                       haveSentWarning := True\<rparr>
                else w);
          myAF = fifoManager ch;
          freeSpace = getFreeSpace myAF;
          nSamplesToClear = int nSamplesToProcess - int freeSpace;
          willBecomeFull = (chanState ch = NOT_FULL \<and> nSamplesToClear \<ge> 0);
          myAF1 = finishedRead (nat (max 0 nSamplesToClear)) myAF;
          myAF2 = moveToFifo myAF1 wpBuffer1 startIndex nSamplesToProcess;
          sdb1 = (if chanState ch \<noteq> NOT_FULL \<or> willBecomeFull
                  then writeShared (sharedDataBuffer ch) (prepareToRead (historyLength cfg) myAF2)
                  else sharedDataBuffer ch);
          chanState1 = (if (chanState ch \<noteq> NOT_FULL \<or> willBecomeFull) \<and> chanState ch = NOT_FULL
                        then FULL_NO_AR else chanState ch)
      in (w1,
          ch\<lparr>filters := filters1, fifoManager := myAF2, chanState := chanState1,
             sharedDataBuffer := sdb1\<rparr>,
          wpBuffer1))"

text \<open>
  \<open>calcPhase\<close> is the first part of the branch \<^verbatim>\<open>chanState[chan] == FULL_AR\<close>, up to
  the loop that writes the phases: it returns the new contents of \<^verbatim>\<open>dataToProcess\<close>
  and the block as it is before unwrapping and smoothing.
\<close>

definition calcPhase ::
  "'f prims \<Rightarrow> settings \<Rightarrow> 'f channel \<Rightarrow> real list \<Rightarrow> nat \<Rightarrow> real list \<times> real list" where
  "calcPhase P cfg ch wpBuffer startIndex =
     (let nSamplesToProcess = length wpBuffer - startIndex;
          dtp = predictWindow cfg (dataToProcess ch) (sharedDataBuffer ch) (arParams ch);
          dataOut = hilbert P dtp
      in (dtp, writePhase P dataOut (historyLength cfg - nSamplesToProcess)
                 wpBuffer startIndex nSamplesToProcess))"

text \<open>\<^verbatim>\<open>unwrapBuffer(wpBuffer, nSamples, chan); smoothBuffer(wpBuffer, nSamples, chan);\<close>\<close>

definition unwrapAndSmooth :: "settings \<Rightarrow> real \<Rightarrow> real list \<Rightarrow> nat \<Rightarrow> real list" where
  "unwrapAndSmooth cfg prev wp nSamples =
     smoothBuffer (glitchLimit cfg) prev (unwrapBuffer (glitchLimit cfg) prev wp nSamples) nSamples"

text \<open>
  The whole body of the channel loop. The three \<^verbatim>\<open>continue\<close> statements return
  everything unchanged.
\<close>

definition processChannel ::
  "'f prims \<Rightarrow> settings \<Rightarrow> warnings \<Rightarrow> 'f channel \<Rightarrow> real list \<Rightarrow> warnings \<times> 'f channel \<times> real list" where
  "processChannel P cfg w ch buffer =
     (if \<not> shouldProcessChannel ch then (w, ch, buffer)
      else if \<not> processADC cfg \<and> (chanType ch = ADC_CHANNEL \<or> chanType ch = AUX_CHANNEL)
      then (w, ch, buffer)
      else
        let nSamples = length buffer in
        if nSamples = 0 then (w, ch, buffer)
        else
          let (w1, ch1, wpBuffer1) = ingest P cfg w ch buffer;
              startIndex = startIndexOf cfg buffer;
              nSamplesToProcess = nSamples - startIndex
          in if chanState ch1 = FULL_AR then
               (let (dtp, raw) = calcPhase P cfg ch1 wpBuffer1 startIndex;
                    wpBuffer2 = unwrapAndSmooth cfg (lastSample ch1) raw nSamples
                in (w1, ch1\<lparr>dataToProcess := dtp, lastSample := wpBuffer2 ! (nSamples - 1)\<rparr>, wpBuffer2))
             else
               (let wpBuffer2 = clear wpBuffer1 startIndex nSamplesToProcess
                in (w1, ch1\<lparr>lastSample := wpBuffer2 ! (nSamples - 1)\<rparr>, wpBuffer2)))"

text \<open>
  \<^verbatim>\<open>for (int chan = 0; chan < nChannels; chan++)\<close>: the channels are processed in order,
  each with its own block; the warning flag is shared.
\<close>

fun process ::
  "'f prims \<Rightarrow> settings \<Rightarrow> warnings \<Rightarrow> 'f channel list \<Rightarrow> real list list
     \<Rightarrow> warnings \<times> 'f channel list \<times> real list list" where
  "process P cfg w (ch # chs) (buffer # buffers) =
     (let (w1, ch1, buffer1) = processChannel P cfg w ch buffer;
          (w2, chs2, buffers2) = process P cfg w1 chs buffers
      in (w2, ch1 # chs2, buffer1 # buffers2))"
| "process P cfg w chs buffers = (w, chs, buffers)"

subsection \<open>PhaseCalculator::disable\<close>

text \<open>
  \<^verbatim>\<open>disable\<close> signals the AR thread to exit, sets every channel state to NOT_FULL,
  resets every fifo, sets every last sample to 0 and clears the warning flag.
\<close>

definition disableChannel :: "'f channel \<Rightarrow> 'f channel" where
  "disableChannel ch = ch\<lparr>chanState := NOT_FULL, fifoManager := reset (fifoManager ch), lastSample := 0\<rparr>"

definition disable :: "warnings \<Rightarrow> 'f channel list \<Rightarrow> warnings \<times> 'f channel list" where
  "disable w chs = (w\<lparr>haveSentWarning := False\<rparr>, map disableChannel chs)"

subsection \<open>The AR thread (PhaseCalculator::run)\<close>

text \<open>
  For a channel the thread first tests \<^verbatim>\<open>chanState[chan] == NOT_FULL\<close>; if the test
  fails it copies \<^verbatim>\<open>historyLength\<close> samples of the shared buffer to its local array,
  fits the model, writes the parameters and then executes
  \<^verbatim>\<open>chanState.set(chan, FULL_AR)\<close>. The two accesses to \<^verbatim>\<open>chanState\<close> are separate
  actions of the thread: \<open>arCheck\<close> is the first, with the local copy as its result,
  and \<open>arPublish\<close> is the second.
\<close>

definition arCheck :: "settings \<Rightarrow> 'f channel \<Rightarrow> real list option" where
  "arCheck cfg ch =
     (if chanState ch = NOT_FULL then None
      else Some (map (\<lambda>i. if i < length (sharedDataBuffer ch) then sharedDataBuffer ch ! i else 0)
                     [0..<historyLength cfg]))"

definition arPublish :: "'f prims \<Rightarrow> real list \<Rightarrow> 'f channel \<Rightarrow> 'f channel" where
  "arPublish P data ch =
     ch\<lparr>arParams := map (\<lambda>i. ARMaxEntropy P data ! i) [0..<AR_ORDER], chanState := FULL_AR\<rparr>"

text \<open>
  One channel together with the AR thread: \<open>fitting\<close> holds the thread's local data
  while it is between the two actions for this channel. The main thread and the AR
  thread interleave; a call of \<^verbatim>\<open>process\<close> for the channel is one event.
  \<^verbatim>\<open>disable\<close> only signals the thread to exit
  (\<^verbatim>\<open>signalThreadShouldExit\<close>) and the thread looks at that signal at the top of its
  outer loop and while it waits, not between the two actions.
\<close>

record 'f system =
  warn :: warnings
  chan :: "'f channel"
  fitting :: "real list option"

datatype event = Process "real list" | ArCheck | ArPublish | Disable

fun step :: "'f prims \<Rightarrow> settings \<Rightarrow> 'f system \<Rightarrow> event \<Rightarrow> 'f system" where
  "step P cfg s (Process buffer) =
     (let (w1, ch1, buffer1) = processChannel P cfg (warn s) (chan s) buffer
      in s\<lparr>warn := w1, chan := ch1\<rparr>)"
| "step P cfg s ArCheck =
     (case fitting s of None \<Rightarrow> s\<lparr>fitting := arCheck cfg (chan s)\<rparr> | Some data \<Rightarrow> s)"
| "step P cfg s ArPublish =
     (case fitting s of None \<Rightarrow> s | Some data \<Rightarrow> s\<lparr>chan := arPublish P data (chan s), fitting := None\<rparr>)"
| "step P cfg s Disable =
     (let (w1, chs1) = disable (warn s) [chan s] in s\<lparr>warn := w1, chan := hd chs1\<rparr>)"

definition runEvents :: "'f prims \<Rightarrow> settings \<Rightarrow> 'f system \<Rightarrow> event list \<Rightarrow> 'f system" where
  "runEvents P cfg s events = foldl (step P cfg) s events"

text \<open>
  Two predicates for the statements about the channel state. \<open>noStaleFit\<close> holds of
  a sequence of events when \<^verbatim>\<open>disable\<close> never falls between the two actions of the AR
  thread. \<open>fifoAgrees\<close> says that the state of the channel tells how full its fifo is,
  as the comments on \<^verbatim>\<open>ChannelState\<close> in the header describe: NOT_FULL with fewer than
  \<^verbatim>\<open>historyLength\<close> samples and no fit under way, FULL_NO_AR and FULL_AR with a full
  fifo.
\<close>

fun noStaleFit :: "'f prims \<Rightarrow> settings \<Rightarrow> 'f system \<Rightarrow> event list \<Rightarrow> bool" where
  "noStaleFit P cfg s [] = True"
| "noStaleFit P cfg s (e # es) =
     ((if e = Disable then fitting s = None else True) \<and> noStaleFit P cfg (step P cfg s e) es)"

definition fifoAgrees :: "settings \<Rightarrow> 'f system \<Rightarrow> bool" where
  "fifoAgrees cfg s =
     (bufferSize (fifoManager (chan s)) = historyLength cfg + 1 \<and>
      (if chanState (chan s) = NOT_FULL
       then getNumReady (fifoManager (chan s)) < historyLength cfg \<and> fitting s = None
       else getNumReady (fifoManager (chan s)) = historyLength cfg))"

subsection \<open>A small configuration for the examples\<close>

text \<open>
  A window of 512 samples of which 492 are predicted, so that the history holds 20
  samples, and one enabled headstage channel.
  In the examples the library parameters are simple functions: a filter that passes
  every sample through, transforms that keep their input, an argument function with
  the constant value of 150 degrees, and an estimator that returns zero coefficients.
\<close>

definition examplePrims :: "unit prims" where
  "examplePrims =
     \<lparr>filterSample = (\<lambda>f x. (f, x)), fftForward = map complex_of_real,
      fftBackward = (\<lambda>spectrum. spectrum), stdArg = (\<lambda>z. 150 * PI / 180),
      ARMaxEntropy = (\<lambda>data. replicate 20 0)\<rparr>"

definition exampleSettings :: settings where
  "exampleSettings =
     \<lparr>processLength = 512, numFuture = 492, historyLength = 20, glitchLimit = 200,
      processADC = False\<rparr>"

definition exampleChannel :: "ChannelState \<Rightarrow> real list \<Rightarrow> real \<Rightarrow> unit channel" where
  "exampleChannel st history prev =
     \<lparr>shouldProcessChannel = True, chanType = HEADSTAGE_CHANNEL, filters = (),
      fifoManager = \<lparr>bufferSize = 21, contents = history\<rparr>, chanState = st,
      sharedDataBuffer = replicate 20 0, dataToProcess = replicate 512 0,
      arParams = replicate 20 0, lastSample = prev\<rparr>"

definition noWarnings :: warnings where
  "noWarnings = \<lparr>haveSentWarning = False, statusMessages = []\<rparr>"

section \<open>Properties of unwrapping and smoothing\<close>

lemma unwrapSearch_found_ge:
  "fst (unwrapSearch gl wp nSamples diff startInd currInd) = Some e \<Longrightarrow> currInd \<le> e"
proof (induction gl wp nSamples diff startInd currInd rule: unwrapSearch.induct)
  case (1 gl wp nSamples diff startInd currInd)
  from "1.prems" consider
      (hit) "e = currInd"
    | (miss) "int currInd \<le> int startInd + gl \<and> currInd < nSamples"
        "\<not> (\<bar>wp ! currInd - wp ! (currInd - 1)\<bar> > 180
            \<and> ((diff > 0) \<noteq> (wp ! currInd - wp ! (currInd - 1) > 0)))"
        "fst (unwrapSearch gl wp nSamples diff startInd (Suc currInd)) = Some e"
    by (subst (asm) unwrapSearch.simps) (auto simp: Let_def split: if_splits)
  then show ?case
  proof cases
    case hit
    then show ?thesis by simp
  next
    case miss
    from "1.IH" [OF miss(1) refl miss(2) miss(3)] show ?thesis by simp
  qed
qed

lemma length_fold_update [simp]:
  "length (fold (\<lambda>i w. w[i := g i w]) is wp) = length wp"
  by (induction "is" arbitrary: wp) simp_all

lemma nth_fold_update_range:
  "fold (\<lambda>i w. w[i := g i (w ! i)]) [a..<b] wp ! j =
     (if a \<le> j \<and> j < b \<and> j < length wp then g j (wp ! j) else wp ! j)"
proof (induction b)
  case 0
  show ?case by simp
next
  case (Suc b)
  show ?case
  proof (cases "a \<le> b")
    case False
    then show ?thesis by auto
  next
    case True
    then have split: "[a..<Suc b] = [a..<b] @ [b]" by simp
    show ?thesis
    proof (cases "j = b")
      case True
      with Suc \<open>a \<le> b\<close> show ?thesis
        unfolding split fold_append by (simp add: nth_list_update list_update_beyond)
    next
      case False
      with Suc \<open>a \<le> b\<close> show ?thesis
        unfolding split fold_append by (simp add: nth_list_update)
    qed
  qed
qed

lemma length_unwrapRange [simp]: "length (unwrapRange wp startInd endInd diff) = length wp"
  by (simp add: unwrapRange_def)

lemma nth_unwrapRange:
  "unwrapRange wp startInd endInd diff ! j =
     (if startInd \<le> j \<and> j < endInd \<and> j < length wp then wp ! j - 360 * (diff / \<bar>diff\<bar>) else wp ! j)"
  using nth_fold_update_range [of "\<lambda>i x. x - 360 * (diff / \<bar>diff\<bar>)" startInd endInd wp j]
  by (simp add: unwrapRange_def)

lemma unwrapLoop_endInd_gt:
  assumes "Suc startInd < nSamples"
    and "(if fst (unwrapSearch gl wp nSamples diff startInd (Suc startInd)) = None \<and> 0 < diff
             \<and> snd (unwrapSearch gl wp nSamples diff startInd (Suc startInd)) = nSamples
          then Some nSamples
          else fst (unwrapSearch gl wp nSamples diff startInd (Suc startInd))) = Some e"
  shows "startInd < e"
  using assms unwrapSearch_found_ge [of gl wp nSamples diff startInd "Suc startInd" e]
  by (auto split: if_splits)

lemma unwrapLoop_nth_before:
  "j < startInd \<Longrightarrow> unwrapLoop gl ls nSamples wp startInd ! j = wp ! j"
proof (induction gl ls nSamples wp startInd rule: unwrapLoop.induct)
  case (1 gl ls nSamples wp startInd)
  show ?case
  proof (cases "Suc startInd < nSamples")
    case False
    then show ?thesis by (subst unwrapLoop.simps) simp
  next
    case lt: True
    define diff where "diff = wp ! startInd - (if startInd = 0 then ls else wp ! (startInd - 1))"
    show ?thesis
    proof (cases "\<bar>diff\<bar> > 180")
      case False
      with lt "1.IH"(3) [OF lt diff_def False] "1.prems" show ?thesis
        by (subst unwrapLoop.simps) (simp add: diff_def Let_def)
    next
      case jump: True
      define found where "found = unwrapSearch gl wp nSamples diff startInd (Suc startInd)"
      define endInd where "endInd = (if fst found = None \<and> diff > 0 \<and> snd found = nSamples
                          then Some nSamples else fst found)"
      have unfold: "unwrapLoop gl ls nSamples wp startInd =
          (case endInd of
             None \<Rightarrow> unwrapLoop gl ls nSamples wp (Suc startInd)
           | Some e \<Rightarrow> unwrapLoop gl ls nSamples (unwrapRange wp startInd e diff) (Suc e))"
        unfolding diff_def found_def endInd_def using lt jump [unfolded diff_def]
        by (subst unwrapLoop.simps) (simp only: Let_def if_True)
      show ?thesis
      proof (cases endInd)
        case None
        with "1.IH"(1) [OF lt diff_def jump found_def endInd_def None] "1.prems" unfold
        show ?thesis by simp
      next
        case (Some e)
        have "startInd < e"
          using unwrapLoop_endInd_gt [OF lt, of gl wp diff e] Some
          unfolding endInd_def found_def by simp
        with "1.IH"(2) [OF lt diff_def jump found_def endInd_def Some] "1.prems" unfold Some
        show ?thesis by (simp add: nth_unwrapRange)
      qed
    qed
  qed
qed

lemma unwrapSearch_none:
  "(\<forall>j. currInd \<le> j \<and> int j \<le> int startInd + gl \<and> j < nSamples \<longrightarrow>
        \<not> (\<bar>wp ! j - wp ! (j - 1)\<bar> > 180 \<and> ((diff > 0) \<noteq> (wp ! j - wp ! (j - 1) > 0))))
   \<Longrightarrow> fst (unwrapSearch gl wp nSamples diff startInd currInd) = None"
proof (induction gl wp nSamples diff startInd currInd rule: unwrapSearch.induct)
  case (1 gl wp nSamples diff startInd currInd)
  show ?case
  proof (cases "int currInd \<le> int startInd + gl \<and> currInd < nSamples")
    case False
    then show ?thesis by (subst unwrapSearch.simps) auto
  next
    case True
    with "1.prems" have miss: "\<not> (\<bar>wp ! currInd - wp ! (currInd - 1)\<bar> > 180
        \<and> ((diff > 0) \<noteq> (wp ! currInd - wp ! (currInd - 1) > 0)))"
      by blast
    from "1.prems" have "fst (unwrapSearch gl wp nSamples diff startInd (Suc currInd)) = None"
      by (intro "1.IH" [OF True refl miss]) auto
    with True miss show ?thesis
      by (subst unwrapSearch.simps) (auto simp: Let_def)
  qed
qed

lemma unwrapSearch_zero:
  "gl \<le> 0 \<Longrightarrow> unwrapSearch gl wp nSamples diff startInd (Suc startInd) = (None, Suc startInd)"
  by (subst unwrapSearch.simps) simp

lemma unwrapLoop_zero:
  "gl \<le> 0 \<Longrightarrow> unwrapLoop gl ls nSamples wp startInd = wp"
proof (induction "nSamples - startInd" arbitrary: startInd rule: less_induct)
  case less
  show ?case
  proof (cases "Suc startInd < nSamples")
    case False
    then show ?thesis by (subst unwrapLoop.simps) simp
  next
    case True
    then have IH: "unwrapLoop gl ls nSamples wp (Suc startInd) = wp"
      using less by simp
    from True show ?thesis
      by (subst unwrapLoop.simps) (simp add: Let_def unwrapSearch_zero less.prems IH)
  qed
qed

lemma smoothSearch_zero:
  "actualMaxSL \<le> 0 \<Longrightarrow> smoothSearch ls actualMaxSL wp (Suc i) = (None, wp)"
  by (subst smoothSearch.simps) simp

lemma smoothBuffer_zero: "gl \<le> 0 \<Longrightarrow> smoothBuffer gl ls wp nSamples = wp"
  using smoothSearch_zero [of "min gl (int nSamples - 1)" ls wp 0]
  by (simp add: smoothBuffer_def Let_def)

lemma length_unwrapLoop [simp]:
  "length (unwrapLoop gl ls nSamples wp startInd) = length wp"
proof (induction gl ls nSamples wp startInd rule: unwrapLoop.induct)
  case (1 gl ls nSamples wp startInd)
  show ?case
  proof (cases "Suc startInd < nSamples")
    case False
    then show ?thesis by (subst unwrapLoop.simps) simp
  next
    case lt: True
    define diff where "diff = wp ! startInd - (if startInd = 0 then ls else wp ! (startInd - 1))"
    show ?thesis
    proof (cases "\<bar>diff\<bar> > 180")
      case False
      with lt "1.IH"(3) [OF lt diff_def False] show ?thesis
        by (subst unwrapLoop.simps) (simp add: diff_def Let_def)
    next
      case jump: True
      define found where "found = unwrapSearch gl wp nSamples diff startInd (Suc startInd)"
      define endInd where "endInd = (if fst found = None \<and> diff > 0 \<and> snd found = nSamples
                          then Some nSamples else fst found)"
      have unfold: "unwrapLoop gl ls nSamples wp startInd =
          (case endInd of
             None \<Rightarrow> unwrapLoop gl ls nSamples wp (Suc startInd)
           | Some e \<Rightarrow> unwrapLoop gl ls nSamples (unwrapRange wp startInd e diff) (Suc e))"
        unfolding diff_def found_def endInd_def using lt jump [unfolded diff_def]
        by (subst unwrapLoop.simps) (simp only: Let_def if_True)
      show ?thesis
      proof (cases endInd)
        case None
        with "1.IH"(1) [OF lt diff_def jump found_def endInd_def None] unfold
        show ?thesis by simp
      next
        case (Some e)
        with "1.IH"(2) [OF lt diff_def jump found_def endInd_def Some] unfold
        show ?thesis by simp
      qed
    qed
  qed
qed

lemma length_unwrapBuffer [simp]: "length (unwrapBuffer gl ls wp nSamples) = length wp"
  by (simp add: unwrapBuffer_def)

lemma unwrapAndSmooth_zero: "glitchLimit cfg \<le> 0 \<Longrightarrow> unwrapAndSmooth cfg prev wp n = wp"
  by (simp add: unwrapAndSmooth_def unwrapBuffer_def unwrapLoop_zero smoothBuffer_zero)

lemma unwrapLoop_no_jump_found:
  assumes "Suc startInd < n"
    and "fst (unwrapSearch gl wp n (wp ! startInd - (if startInd = 0 then ls else wp ! (startInd - 1))) startInd (Suc startInd)) = None"
    and "\<not> wp ! startInd - (if startInd = 0 then ls else wp ! (startInd - 1)) > 0"
  shows "unwrapLoop gl ls n wp startInd = unwrapLoop gl ls n wp (Suc startInd)"
  using assms by (subst unwrapLoop.simps) (simp add: Let_def)

lemma unwrapBuffer_downward_first:
  assumes down: "wp ! 0 - ls < - 180"
    and none: "\<forall>j. 1 \<le> j \<and> int j \<le> gl \<and> j < n \<longrightarrow> \<not> wp ! j - wp ! (j - 1) > 180"
  shows "unwrapBuffer gl ls wp n ! 0 = wp ! 0"
proof (cases "Suc 0 < n")
  case False
  then show ?thesis by (simp add: unwrapBuffer_def unwrapLoop.simps [of _ _ _ _ 0])
next
  case True
  have "fst (unwrapSearch gl wp n (wp ! 0 - ls) 0 (Suc 0)) = None"
    using none down by (intro unwrapSearch_none) auto
  with True down have "unwrapLoop gl ls n wp 0 = unwrapLoop gl ls n wp (Suc 0)"
    by (intro unwrapLoop_no_jump_found) auto
  then show ?thesis by (simp add: unwrapBuffer_def unwrapLoop_nth_before)
qed

lemma smoothBuffer_large_step:
  "\<not> (wp ! 0 - ls < 0 \<and> wp ! 0 - ls > - 180) \<Longrightarrow> smoothBuffer gl ls wp n = wp"
  by (auto simp: smoothBuffer_def Let_def)

lemma unwrapSearch_reaches_end:
  "(\<forall>j. currInd \<le> j \<and> j < n \<longrightarrow>
        \<not> (\<bar>wp ! j - wp ! (j - 1)\<bar> > 180 \<and> ((diff > 0) \<noteq> (wp ! j - wp ! (j - 1) > 0))))
   \<Longrightarrow> currInd \<le> n \<Longrightarrow> int n \<le> int startInd + gl + 1
   \<Longrightarrow> unwrapSearch gl wp n diff startInd currInd = (None, n)"
proof (induction gl wp n diff startInd currInd rule: unwrapSearch.induct)
  case (1 gl wp n diff startInd currInd)
  show ?case
  proof (cases "currInd < n")
    case False
    with "1.prems" show ?thesis by (subst unwrapSearch.simps) auto
  next
    case True
    with "1.prems" have guard: "int currInd \<le> int startInd + gl \<and> currInd < n" by auto
    from "1.prems" True have miss: "\<not> (\<bar>wp ! currInd - wp ! (currInd - 1)\<bar> > 180
        \<and> ((diff > 0) \<noteq> (wp ! currInd - wp ! (currInd - 1) > 0)))"
      by blast
    from "1.prems" True have "unwrapSearch gl wp n diff startInd (Suc currInd) = (None, n)"
      by (intro "1.IH" [OF guard refl miss]) auto
    with guard miss show ?thesis
      by (subst unwrapSearch.simps) (auto simp: Let_def)
  qed
qed

lemma unwrapBuffer_upward_edge:
  assumes up: "wp ! 0 - ls > 180" and n: "n = length wp" "Suc 0 < n" and reach: "int n \<le> gl + 1"
    and none: "\<forall>j. 1 \<le> j \<and> j < n \<longrightarrow> \<not> wp ! j - wp ! (j - 1) < - 180"
  shows "unwrapBuffer gl ls wp n = map (\<lambda>x. x - 360) wp"
proof -
  have search: "unwrapSearch gl wp n (wp ! 0 - ls) 0 (Suc 0) = (None, n)"
    using none up n reach by (intro unwrapSearch_reaches_end) auto
  have "unwrapLoop gl ls n wp 0 = unwrapLoop gl ls n (unwrapRange wp 0 n (wp ! 0 - ls)) (Suc n)"
    using n up search by (subst unwrapLoop.simps) (simp add: Let_def)
  also have "\<dots> = unwrapRange wp 0 n (wp ! 0 - ls)"
    by (subst unwrapLoop.simps) simp
  also have "\<dots> = map (\<lambda>x. x - 360) wp"
    using up n by (intro nth_equalityI) (simp_all add: nth_unwrapRange)
  finally show ?thesis by (simp add: unwrapBuffer_def)
qed

lemma smoothSearch_none:
  "(\<forall>j. i \<le> j \<and> int j \<le> m \<longrightarrow>
       \<not> (wp ! j > prev \<or> (wp ! j - wp ! (j - 1) > 180 \<and> wp ! j + 360 > prev)))
   \<Longrightarrow> smoothSearch prev m wp i = (None, wp)"
proof (induction prev m wp i rule: smoothSearch.induct)
  case (1 prev m wp i)
  show ?case
  proof (cases "int i \<le> m")
    case False
    then show ?thesis by (subst smoothSearch.simps) simp
  next
    case True
    with "1.prems" have a: "\<not> prev < wp ! i"
      and b: "\<not> (180 < wp ! i - wp ! (i - 1) \<and> prev < wp ! i + 360)"
      by auto
    from "1.prems" have "smoothSearch prev m wp (Suc i) = (None, wp)"
      by (intro "1.IH" [OF True a b]) auto
    with True a b show ?thesis by (subst smoothSearch.simps) auto
  qed
qed

lemma smoothSearch_first:
  assumes "i \<le> e" and "int e \<le> m"
    and "wp ! e > prev \<or> (wp ! e - wp ! (e - 1) > 180 \<and> wp ! e + 360 > prev)"
    and "\<forall>j. i \<le> j \<and> j < e \<longrightarrow>
           \<not> (wp ! j > prev \<or> (wp ! j - wp ! (j - 1) > 180 \<and> wp ! j + 360 > prev))"
  shows "smoothSearch prev m wp i = (Some e, if wp ! e > prev then wp else wp[e := wp ! e + 360])"
  using assms
proof (induction prev m wp i rule: smoothSearch.induct)
  case (1 prev m wp i)
  show ?case
  proof (cases "i = e")
    case True
    with "1.prems" show ?thesis by (subst smoothSearch.simps) auto
  next
    case False
    with "1.prems" have lt: "i < e" by simp
    with "1.prems" have guard: "int i \<le> m" by simp
    from "1.prems" lt have a: "\<not> prev < wp ! i"
      and b: "\<not> (180 < wp ! i - wp ! (i - 1) \<and> prev < wp ! i + 360)"
      by auto
    from "1.prems" lt
    have "smoothSearch prev m wp (Suc i) = (Some e, if wp ! e > prev then wp else wp[e := wp ! e + 360])"
      by (intro "1.IH" [OF guard a b]) auto
    with guard a b show ?thesis by (subst smoothSearch.simps) auto
  qed
qed

lemma length_interpolate [simp]: "length (interpolate prev wp e) = length wp"
  by (simp add: interpolate_def Let_def)

lemma nth_interpolate:
  "interpolate prev wp e ! i =
     (if i < e \<and> i < length wp then prev + (real i + 1) * ((wp ! e - prev) / (real e + 1)) else wp ! i)"
  using nth_fold_update_range [of "\<lambda>i x. prev + (real i + 1) * ((wp ! e - prev) / (real e + 1))" 0 e wp i]
  by (simp add: interpolate_def Let_def)

lemma smoothBuffer_no_crossing:
  assumes "\<forall>j. 1 \<le> j \<and> int j \<le> min gl (int n - 1) \<longrightarrow>
         \<not> (wp ! j > prev \<or> (wp ! j - wp ! (j - 1) > 180 \<and> wp ! j + 360 > prev))"
  shows "smoothBuffer gl prev wp n = wp"
proof -
  have "smoothSearch prev (min gl (int n - 1)) wp 1 = (None, wp)"
    using assms by (intro smoothSearch_none) simp
  then show ?thesis
    by (simp add: smoothBuffer_def Let_def)
qed

lemma smoothBuffer_crossing:
  assumes n: "n = length wp" and diff: "wp ! 0 - prev < 0" "wp ! 0 - prev > - 180"
    and e: "1 \<le> e" "int e \<le> min gl (int n - 1)"
    and cross: "wp ! e > prev \<or> (wp ! e - wp ! (e - 1) > 180 \<and> wp ! e + 360 > prev)"
    and first: "\<forall>j. 1 \<le> j \<and> j < e \<longrightarrow>
         \<not> (wp ! j > prev \<or> (wp ! j - wp ! (j - 1) > 180 \<and> wp ! j + 360 > prev))"
  shows "smoothBuffer gl prev wp n =
           interpolate prev (if wp ! e > prev then wp else wp[e := wp ! e + 360]) e"
proof -
  have "smoothSearch prev (min gl (int n - 1)) wp 1 =
          (Some e, if wp ! e > prev then wp else wp[e := wp ! e + 360])"
    using e cross first by (intro smoothSearch_first) auto
  with diff show ?thesis
    by (simp add: smoothBuffer_def Let_def)
qed

section \<open>Properties of hilbertManip and arPredict\<close>

lemma lastPosFreq_eq: "round (of_int \<lceil>real n / 2\<rceil> - 1 :: real) = \<lceil>real n / 2\<rceil> - 1"
proof -
  have "(of_int \<lceil>real n / 2\<rceil> - 1 :: real) = of_int (\<lceil>real n / 2\<rceil> - 1)" by simp
  then show ?thesis by (simp only: round_of_int)
qed

lemma firstNegFreq_eq: "round (of_int \<lfloor>real n / 2\<rfloor> + 1 :: real) = int (n div 2) + 1"
proof -
  have "\<lfloor>real n / 2\<rfloor> = int (n div 2)"
    using floor_divide_of_nat_eq [of n 2, where ?'a = real] by simp
  moreover have "(of_int (int (n div 2)) + 1 :: real) = of_int (int (n div 2) + 1)" by simp
  ultimately show ?thesis by (simp only: round_of_int)
qed

lemma ceiling_half: "\<lceil>real n / 2\<rceil> = int ((n + 1) div 2)"
proof -
  have "\<lceil>real n / 2\<rceil> = \<lceil>of_int (int n) / (of_int 2 :: real)\<rceil>" by simp
  also have "\<dots> = - (- int n div 2)" by (rule ceiling_divide_eq_div)
  also have "\<dots> = int ((n + 1) div 2)" by linarith
  finally show ?thesis .
qed

lemma length_hilbertManip [simp]: "length (hilbertManip x) = length x"
  by (simp add: hilbertManip_def Let_def)

lemma nth_hilbertManip:
  "i < length x \<Longrightarrow> hilbertManip x ! i =
     (if 0 < i \<and> int i \<le> \<lceil>real (length x) / 2\<rceil> - 1 then x ! i * of_real (2 / real (length x))
      else if i \<le> length x div 2 then x ! i / of_real (real (length x))
      else 0)"
  unfolding hilbertManip_def Let_def lastPosFreq_eq firstNegFreq_eq by auto

lemma fold_add_sum:
  "fold (\<lambda>k acc. acc + f k) [0..<m] (a :: real) = a + (\<Sum>k<m. f k)"
  by (induction m) simp_all

lemma inner_product_sum:
  "inner_product params data pos = (\<Sum>k<AR_ORDER. params ! k * data ! (pos - 1 - k))"
  by (simp add: inner_product_def fold_add_sum)

lemma inner_product_cong:
  assumes "\<forall>j < pos. d ! j = d' ! j" and "0 < pos"
  shows "inner_product params d pos = inner_product params d' pos"
  unfolding inner_product_sum using assms by (intro sum.cong) auto

lemma arPredict_Suc:
  "arPredict data writeStart (Suc m) params =
     (arPredict data writeStart m params)
       [writeStart + m := - inner_product params (arPredict data writeStart m params) (writeStart + m)]"
  by (simp add: arPredict_def)

lemma length_arPredict [simp]: "length (arPredict data writeStart m params) = length data"
  by (induction m) (simp_all add: arPredict_Suc, simp add: arPredict_def)

lemma arPredict_zero: "arPredict data writeStart 0 params = data"
  by (simp add: arPredict_def)

lemma nth_arPredict_outside:
  "j < writeStart \<or> writeStart + m \<le> j \<Longrightarrow> arPredict data writeStart m params ! j = data ! j"
  by (induction m) (auto simp: arPredict_Suc arPredict_zero)

lemma nth_arPredict_stable:
  "j < writeStart + m \<Longrightarrow>
     arPredict data writeStart (Suc m) params ! j = arPredict data writeStart m params ! j"
  by (simp add: arPredict_Suc)

section \<open>Properties of process\<close>

lemma length_filterProcess [simp]: "length (snd (filterProcess st f xs)) = length xs"
  by (induction xs arbitrary: f) (simp_all add: split_def Let_def)

lemma length_clear [simp]: "length (clear wp start num) = length wp"
  by (simp add: clear_def)

lemma nth_clear:
  "clear wp start num ! j = (if start \<le> j \<and> j < start + num \<and> j < length wp then 0 else wp ! j)"
  using nth_fold_update_range [of "\<lambda>i x. 0" start "start + num" wp j]
  by (simp add: clear_def)

lemma length_fold_update_at [simp]:
  "length (fold (\<lambda>i w. w[h i := g i w]) is wp) = length wp"
  by (induction "is" arbitrary: wp) simp_all

lemma length_writePhase [simp]:
  "length (writePhase P dataOut rpStart wp startIndex m) = length wp"
  by (simp add: writePhase_def)

lemma writePhase_Suc:
  "writePhase P dataOut rpStart wp startIndex (Suc m) =
     (writePhase P dataOut rpStart wp startIndex m)
       [m + startIndex := stdArg P (dataOut ! (rpStart + m)) * (180 / PI)]"
  by (simp add: writePhase_def)

lemma nth_writePhase:
  "writePhase P dataOut rpStart wp startIndex m ! j =
     (if startIndex \<le> j \<and> j < startIndex + m \<and> j < length wp
      then stdArg P (dataOut ! (rpStart + (j - startIndex))) * (180 / PI)
      else wp ! j)"
proof (induction m)
  case 0
  show ?case by (simp add: writePhase_def)
next
  case (Suc m)
  show ?case
  proof (cases "j = m + startIndex")
    case True
    with Suc show ?thesis
      by (cases "j < length wp") (auto simp: writePhase_Suc list_update_beyond)
  next
    case False
    with Suc show ?thesis by (auto simp: writePhase_Suc)
  qed
qed

lemma ingest_chanState:
  "chanState (fst (snd (ingest P cfg w ch buffer))) =
     (if chanState ch = NOT_FULL
      then (if int (length buffer - startIndexOf cfg buffer) \<ge> int (getFreeSpace (fifoManager ch))
            then FULL_NO_AR else NOT_FULL)
      else chanState ch)"
  by (auto simp: ingest_def Let_def split_def)

lemma ingest_lastSample [simp]:
  "lastSample (fst (snd (ingest P cfg w ch buffer))) = lastSample ch"
  by (simp add: ingest_def Let_def split_def)

lemma ingest_arParams [simp]:
  "arParams (fst (snd (ingest P cfg w ch buffer))) = arParams ch"
  by (simp add: ingest_def Let_def split_def)

lemma ingest_dataToProcess [simp]:
  "dataToProcess (fst (snd (ingest P cfg w ch buffer))) = dataToProcess ch"
  by (simp add: ingest_def Let_def split_def)

lemma length_ingest [simp]: "length (snd (snd (ingest P cfg w ch buffer))) = length buffer"
  by (simp add: ingest_def Let_def split_def)

lemma nth_ingest_front:
  "j < startIndexOf cfg buffer \<Longrightarrow> snd (snd (ingest P cfg w ch buffer)) ! j = 0"
  by (auto simp: ingest_def Let_def split_def nth_clear startIndexOf_def)

lemma processChannel_skip:
  "\<not> shouldProcessChannel ch \<or> (\<not> processADC cfg \<and> (chanType ch = ADC_CHANNEL \<or> chanType ch = AUX_CHANNEL))
     \<or> buffer = []
   \<Longrightarrow> processChannel P cfg w ch buffer = (w, ch, buffer)"
  by (auto simp: processChannel_def)

lemma processChannel_not_FULL_AR:
  assumes "shouldProcessChannel ch"
    and "processADC cfg \<or> (chanType ch \<noteq> ADC_CHANNEL \<and> chanType ch \<noteq> AUX_CHANNEL)"
    and "buffer \<noteq> []"
    and "chanState ch \<noteq> FULL_AR"
  shows "snd (snd (processChannel P cfg w ch buffer)) =
           clear (snd (snd (ingest P cfg w ch buffer))) (startIndexOf cfg buffer)
             (length buffer - startIndexOf cfg buffer)"
  using assms by (auto simp: processChannel_def Let_def split_def ingest_chanState)

lemma processChannel_FULL_AR:
  assumes "shouldProcessChannel ch"
    and "processADC cfg \<or> (chanType ch \<noteq> ADC_CHANNEL \<and> chanType ch \<noteq> AUX_CHANNEL)"
    and "buffer \<noteq> []"
    and "chanState ch = FULL_AR"
  shows "snd (snd (processChannel P cfg w ch buffer)) =
           unwrapAndSmooth cfg (lastSample ch)
             (snd (calcPhase P cfg (fst (snd (ingest P cfg w ch buffer)))
                     (snd (snd (ingest P cfg w ch buffer))) (startIndexOf cfg buffer)))
             (length buffer)"
  using assms by (auto simp: processChannel_def Let_def split_def ingest_chanState)

lemma predictWindow_no_future:
  "numFuture cfg = 0 \<Longrightarrow> predictWindow cfg dtp sdb p1 = predictWindow cfg dtp sdb p2"
  by (simp add: predictWindow_def Let_def arPredict_zero)

lemma ingest_arParams_update:
  "ingest P cfg w (ch\<lparr>arParams := p\<rparr>) buffer =
     (fst (ingest P cfg w ch buffer),
      (fst (snd (ingest P cfg w ch buffer)))\<lparr>arParams := p\<rparr>,
      snd (snd (ingest P cfg w ch buffer)))"
  by (simp add: ingest_def Let_def split_def)

lemma calcPhase_no_future:
  "numFuture cfg = 0 \<Longrightarrow> calcPhase P cfg (ch\<lparr>arParams := p\<rparr>) wp s = calcPhase P cfg ch wp s"
  using predictWindow_no_future [of cfg "dataToProcess ch" "sharedDataBuffer ch" p "arParams ch"]
  by (simp add: calcPhase_def Let_def)

lemma processChannel_no_future:
  assumes "numFuture cfg = 0"
  shows "processChannel P cfg w (ch\<lparr>arParams := p\<rparr>) buffer =
     (fst (processChannel P cfg w ch buffer),
      (fst (snd (processChannel P cfg w ch buffer)))\<lparr>arParams := p\<rparr>,
      snd (snd (processChannel P cfg w ch buffer)))"
  using assms
  by (simp add: processChannel_def Let_def split_def ingest_arParams_update calcPhase_no_future)

lemma unwrapLoop_no_jump:
  assumes "Suc startInd < n"
    and "\<not> \<bar>wp ! startInd - (if startInd = 0 then ls else wp ! (startInd - 1))\<bar> > 180"
  shows "unwrapLoop gl ls n wp startInd = unwrapLoop gl ls n wp (Suc startInd)"
  using assms by (subst unwrapLoop.simps) (simp add: Let_def)

lemma unwrapLoop_done: "\<not> Suc startInd < n \<Longrightarrow> unwrapLoop gl ls n wp startInd = wp"
  by (subst unwrapLoop.simps) simp

lemma calcPhase_nth_front:
  "j < s \<Longrightarrow> snd (calcPhase P cfg ch wp s) ! j = wp ! j"
  by (simp add: calcPhase_def Let_def nth_writePhase)

lemma calcPhase_nth:
  "s \<le> j \<Longrightarrow> j < length wp \<Longrightarrow>
     snd (calcPhase P cfg ch wp s) ! j =
       stdArg P (hilbert P (predictWindow cfg (dataToProcess ch) (sharedDataBuffer ch) (arParams ch))
                 ! (historyLength cfg - (length wp - s) + (j - s))) * (180 / PI)"
  by (auto simp: calcPhase_def Let_def nth_writePhase)

lemma length_calcPhase [simp]: "length (snd (calcPhase P cfg ch wp s)) = length wp"
  by (simp add: calcPhase_def Let_def)

lemma ingest_warnings:
  "fst (ingest P cfg w ch buffer) =
     (if startIndexOf cfg buffer \<noteq> 0 \<and> \<not> haveSentWarning w
      then w\<lparr>statusMessages := statusMessages w @
               [''WARNING: Phase Calculator buffer is shorter than the sample buffer!''],
             haveSentWarning := True\<rparr>
      else w)"
  by (simp add: ingest_def Let_def split_def)

lemma processChannel_warnings:
  "fst (processChannel P cfg w ch buffer) = w \<or>
   fst (processChannel P cfg w ch buffer) = fst (ingest P cfg w ch buffer)"
  by (simp add: processChannel_def Let_def split_def)

lemma ingest_overlong_fifo:
  assumes "historyLength cfg < length buffer"
    and "bufferSize (fifoManager ch) = historyLength cfg + 1"
    and "getNumReady (fifoManager ch) \<le> historyLength cfg"
  shows "contents (fifoManager (fst (snd (ingest P cfg w ch buffer)))) =
           drop (length buffer - historyLength cfg) (snd (filterProcess (filterSample P) (filters ch) buffer))"
proof -
  let ?wp0 = "snd (filterProcess (filterSample P) (filters ch) buffer)"
  let ?s = "length buffer - historyLength cfg"
  have s: "startIndexOf cfg buffer = ?s" "?s \<noteq> 0" "length buffer - ?s = historyLength cfg"
    using assms by (simp_all add: startIndexOf_def)
  have free: "getFreeSpace (fifoManager ch) = historyLength cfg - getNumReady (fifoManager ch)"
    using assms by (simp add: getFreeSpace_def)
  have "drop ?s (clear ?wp0 0 ?s) = drop ?s ?wp0"
    by (intro nth_equalityI) (simp_all add: nth_clear)
  then show ?thesis
    using assms s free
    by (simp add: ingest_def Let_def split_def moveToFifo_def finishedRead_def getFreeSpace_def
        getNumReady_def)
qed

lemma processChannel_chanState:
  "chanState (fst (snd (processChannel P cfg w ch buffer))) =
     (if \<not> shouldProcessChannel ch
         \<or> (\<not> processADC cfg \<and> (chanType ch = ADC_CHANNEL \<or> chanType ch = AUX_CHANNEL))
         \<or> buffer = []
      then chanState ch
      else chanState (fst (snd (ingest P cfg w ch buffer))))"
  by (auto simp: processChannel_def Let_def split_def)

lemma processChannel_fifoManager:
  "fifoManager (fst (snd (processChannel P cfg w ch buffer))) =
     (if \<not> shouldProcessChannel ch
         \<or> (\<not> processADC cfg \<and> (chanType ch = ADC_CHANNEL \<or> chanType ch = AUX_CHANNEL))
         \<or> buffer = []
      then fifoManager ch
      else fifoManager (fst (snd (ingest P cfg w ch buffer))))"
  by (auto simp: processChannel_def Let_def split_def)

lemma processChannel_state_forward:
  "chanState (fst (snd (processChannel P cfg w ch buffer))) = chanState ch \<or>
   (chanState ch = NOT_FULL \<and> chanState (fst (snd (processChannel P cfg w ch buffer))) = FULL_NO_AR)"
  by (simp add: processChannel_chanState ingest_chanState)

lemma ingest_contents:
  "contents (fifoManager (fst (snd (ingest P cfg w ch buffer)))) =
     (let k = nat (max 0 (int (length buffer - startIndexOf cfg buffer) - int (getFreeSpace (fifoManager ch))));
          kept = drop k (contents (fifoManager ch));
          free = bufferSize (fifoManager ch) - length kept - 1
      in kept @ take (min (length buffer - startIndexOf cfg buffer) free)
                  (drop (startIndexOf cfg buffer) (snd (snd (ingest P cfg w ch buffer)))))"
  by (simp add: ingest_def Let_def split_def moveToFifo_def finishedRead_def getFreeSpace_def
        getNumReady_def)

lemma fifo_clear_count:
  "r \<le> hl \<Longrightarrow> nat (max 0 (int (n - (n - hl)) - int (hl + 1 - r - 1))) = (min n hl + r) - hl"
  by (auto simp: max_def min_def)

lemma fifo_new_count:
  "r \<le> hl \<Longrightarrow> k = (min n hl + r) - hl \<Longrightarrow>
   (r - k) + min (min (n - (n - hl)) (hl + 1 - (r - k) - 1)) (n - (n - hl)) = min hl (r + (n::nat))"
  by (auto simp: min_def)

lemma ingest_numReady:
  assumes "bufferSize (fifoManager ch) = historyLength cfg + 1"
    and "getNumReady (fifoManager ch) \<le> historyLength cfg"
  shows "getNumReady (fifoManager (fst (snd (ingest P cfg w ch buffer)))) =
           min (historyLength cfg) (getNumReady (fifoManager ch) + length buffer)"
proof -
  define hl where "hl = historyLength cfg"
  define r where "r = length (contents (fifoManager ch))"
  define n where "n = length buffer"
  define k where "k = nat (max 0 (int (n - (n - hl)) - int (hl + 1 - r - 1)))"
  have r: "r \<le> hl" using assms(2) by (simp add: r_def hl_def getNumReady_def)
  have "getNumReady (fifoManager (fst (snd (ingest P cfg w ch buffer)))) =
          (r - k) + min (min (n - (n - hl)) (hl + 1 - (r - k) - 1)) (n - (n - hl))"
    unfolding getNumReady_def ingest_contents Let_def
    using assms
    by (simp add: startIndexOf_def getFreeSpace_def getNumReady_def hl_def r_def n_def k_def)
  also have "\<dots> = min hl (r + n)"
    using r fifo_clear_count [OF r, of n] by (intro fifo_new_count) (simp_all add: k_def)
  finally show ?thesis by (simp add: hl_def r_def n_def getNumReady_def)
qed

lemma ingest_becomes_full_iff:
  assumes "bufferSize (fifoManager ch) = historyLength cfg + 1"
    and "getNumReady (fifoManager ch) \<le> historyLength cfg"
    and "chanState ch = NOT_FULL"
  shows "chanState (fst (snd (ingest P cfg w ch buffer))) = FULL_NO_AR \<longleftrightarrow>
           getNumReady (fifoManager (fst (snd (ingest P cfg w ch buffer)))) = historyLength cfg"
proof -
  have "int (length buffer - (length buffer - historyLength cfg))
          \<ge> int (historyLength cfg - getNumReady (fifoManager ch)) \<longleftrightarrow>
        min (historyLength cfg) (getNumReady (fifoManager ch) + length buffer) = historyLength cfg"
    using assms(2) by (auto simp: min_def)
  with assms show ?thesis
    by (auto simp: ingest_numReady ingest_chanState getFreeSpace_def startIndexOf_def)
qed

lemma runEvents_Cons: "runEvents P cfg s (e # es) = runEvents P cfg (step P cfg s e) es"
  by (simp add: runEvents_def)

lemma runEvents_Nil: "runEvents P cfg s [] = s"
  by (simp add: runEvents_def)

lemma ingest_bufferSize [simp]:
  "bufferSize (fifoManager (fst (snd (ingest P cfg w ch buffer)))) = bufferSize (fifoManager ch)"
  by (simp add: ingest_def Let_def split_def moveToFifo_def finishedRead_def)

lemma processChannel_bufferSize [simp]:
  "bufferSize (fifoManager (fst (snd (processChannel P cfg w ch buffer)))) = bufferSize (fifoManager ch)"
  by (simp add: processChannel_fifoManager)

lemma step_fifoAgrees:
  assumes "fifoAgrees cfg s" and "e = Disable \<longrightarrow> fitting s = None" and "0 < historyLength cfg"
  shows "fifoAgrees cfg (step P cfg s e)"
proof (cases e)
  case (Process buffer)
  let ?ch = "chan s"
  from assms(1) have bs: "bufferSize (fifoManager ?ch) = historyLength cfg + 1"
    and le: "getNumReady (fifoManager ?ch) \<le> historyLength cfg"
    by (auto simp: fifoAgrees_def split: if_splits)
  show ?thesis
  proof (cases "\<not> shouldProcessChannel ?ch
         \<or> (\<not> processADC cfg \<and> (chanType ?ch = ADC_CHANNEL \<or> chanType ?ch = AUX_CHANNEL))
         \<or> buffer = []")
    case True
    then have "processChannel P cfg (warn s) ?ch buffer = (warn s, ?ch, buffer)"
      by (rule processChannel_skip)
    with assms(1) Process show ?thesis by (simp add: fifoAgrees_def)
  next
    case False
    then have st: "chanState (fst (snd (processChannel P cfg (warn s) ?ch buffer))) =
        chanState (fst (snd (ingest P cfg (warn s) ?ch buffer)))"
      and ff: "fifoManager (fst (snd (processChannel P cfg (warn s) ?ch buffer))) =
        fifoManager (fst (snd (ingest P cfg (warn s) ?ch buffer)))"
      by (auto simp: processChannel_chanState processChannel_fifoManager)
    have nr: "getNumReady (fifoManager (fst (snd (ingest P cfg (warn s) ?ch buffer)))) =
        min (historyLength cfg) (getNumReady (fifoManager ?ch) + length buffer)"
      using bs le by (rule ingest_numReady)
    show ?thesis
    proof (cases "chanState ?ch = NOT_FULL")
      case True
      from ingest_becomes_full_iff [OF bs le True, of P "warn s" buffer] nr assms(1) True
      show ?thesis
        using Process st ff bs
        by (auto simp: fifoAgrees_def split_def Let_def ingest_chanState split: if_splits)
    next
      case False
      with assms(1) have "getNumReady (fifoManager ?ch) = historyLength cfg"
        by (simp add: fifoAgrees_def)
      with nr False show ?thesis
        using Process st ff bs
        by (simp add: fifoAgrees_def split_def Let_def ingest_chanState)
    qed
  qed
next
  case ArCheck
  with assms(1) show ?thesis
    by (auto simp: fifoAgrees_def arCheck_def split: option.splits if_splits)
next
  case ArPublish
  with assms(1) show ?thesis
    by (auto simp: fifoAgrees_def arPublish_def split: option.splits if_splits)
next
  case Disable
  with assms show ?thesis
    by (simp add: fifoAgrees_def disable_def disableChannel_def reset_def getNumReady_def)
qed

lemma runEvents_fifoAgrees:
  "fifoAgrees cfg s \<Longrightarrow> noStaleFit P cfg s es \<Longrightarrow> 0 < historyLength cfg
     \<Longrightarrow> fifoAgrees cfg (runEvents P cfg s es)"
proof (induction es arbitrary: s)
  case Nil
  then show ?case by (simp add: runEvents_Nil)
next
  case (Cons e es)
  from Cons.prems have "fifoAgrees cfg (step P cfg s e)"
    by (intro step_fifoAgrees) (auto split: if_splits)
  with Cons show ?case by (simp add: runEvents_Cons)
qed

lemma step_chain:
  assumes "fifoAgrees cfg s" and "e \<noteq> Disable"
  shows "chanState (chan (step P cfg s e)) = chanState (chan s) \<or>
         (chanState (chan s) = NOT_FULL \<and> chanState (chan (step P cfg s e)) = FULL_NO_AR \<and> (\<exists>b. e = Process b)) \<or>
         (chanState (chan s) = FULL_NO_AR \<and> chanState (chan (step P cfg s e)) = FULL_AR \<and> e = ArPublish)"
proof (cases e)
  case (Process buffer)
  with processChannel_state_forward [of P cfg "warn s" "chan s" buffer]
  show ?thesis by (auto simp: split_def Let_def)
next
  case ArCheck
  then show ?thesis by (simp split: option.splits)
next
  case ArPublish
  show ?thesis
  proof (cases "fitting s")
    case None
    with ArPublish show ?thesis by simp
  next
    case (Some data)
    with assms(1) have "chanState (chan s) \<noteq> NOT_FULL"
      by (auto simp: fifoAgrees_def split: if_splits)
    then have "chanState (chan s) = FULL_NO_AR \<or> chanState (chan s) = FULL_AR"
      by (cases "chanState (chan s)") simp_all
    with ArPublish Some show ?thesis by (auto simp: arPublish_def)
  qed
next
  case Disable
  with assms show ?thesis by simp
qed

lemma processChannel_warnings_kept:
  "haveSentWarning w \<Longrightarrow> fst (processChannel P cfg w ch buffer) = w"
  by (simp add: processChannel_def Let_def split_def ingest_warnings)

lemma processChannel_overlong_warning:
  assumes "shouldProcessChannel ch"
    and "processADC cfg \<or> (chanType ch \<noteq> ADC_CHANNEL \<and> chanType ch \<noteq> AUX_CHANNEL)"
    and "historyLength cfg < length buffer" and "\<not> haveSentWarning w"
  shows "fst (processChannel P cfg w ch buffer) =
           w\<lparr>statusMessages := statusMessages w @
                [''WARNING: Phase Calculator buffer is shorter than the sample buffer!''],
              haveSentWarning := True\<rparr>"
proof -
  from assms(3) have "buffer \<noteq> []" "startIndexOf cfg buffer \<noteq> 0"
    by (auto simp: startIndexOf_def)
  with assms show ?thesis
    by (auto simp: processChannel_def Let_def split_def ingest_warnings)
qed

lemma disable_resets_warning: "haveSentWarning (fst (disable w chs)) = False"
  by (simp add: disable_def)

lemma overlong_block_front_cleared:
  assumes "shouldProcessChannel ch"
    and "processADC cfg \<or> (chanType ch \<noteq> ADC_CHANNEL \<and> chanType ch \<noteq> AUX_CHANNEL)"
    and "buffer \<noteq> []" and "j < length buffer - historyLength cfg"
  shows "chanState ch \<noteq> FULL_AR \<longrightarrow> snd (snd (processChannel P cfg w ch buffer)) ! j = 0"
    and "snd (calcPhase P cfg (fst (snd (ingest P cfg w ch buffer)))
                (snd (snd (ingest P cfg w ch buffer))) (startIndexOf cfg buffer)) ! j = 0"
proof -
  from assms(4) have j: "j < startIndexOf cfg buffer" by (simp add: startIndexOf_def)
  show "chanState ch \<noteq> FULL_AR \<longrightarrow> snd (snd (processChannel P cfg w ch buffer)) ! j = 0"
  proof
    assume "chanState ch \<noteq> FULL_AR"
    from processChannel_not_FULL_AR [OF assms(1-3) this] j
    show "snd (snd (processChannel P cfg w ch buffer)) ! j = 0"
      by (simp add: nth_clear nth_ingest_front)
  qed
  from j show "snd (calcPhase P cfg (fst (snd (ingest P cfg w ch buffer)))
                (snd (snd (ingest P cfg w ch buffer))) (startIndexOf cfg buffer)) ! j = 0"
    by (simp add: calcPhase_nth_front nth_ingest_front)
qed

lemma example_stdArg:
  "stdArg examplePrims z * (180 / PI) = 150" "stdArg examplePrims z * 180 / PI = 150"
  by (simp_all add: examplePrims_def PI_def)

lemma exampleChannel_fields [simp]:
  "shouldProcessChannel (exampleChannel st h p) = True"
  "chanType (exampleChannel st h p) = HEADSTAGE_CHANNEL"
  "chanState (exampleChannel st h p) = st"
  "lastSample (exampleChannel st h p) = p"
  "fifoManager (exampleChannel st h p) = \<lparr>bufferSize = 21, contents = h\<rparr>"
  by (simp_all add: exampleChannel_def)

lemma exampleSettings_fields [simp]:
  "historyLength exampleSettings = 20" "numFuture exampleSettings = 492"
  "processLength exampleSettings = 512" "glitchLimit exampleSettings = 200"
  "processADC exampleSettings = False"
  by (simp_all add: exampleSettings_def)

section \<open>The claims\<close>

text \<open>
  C1 (as amended). The last phase of block N is 170 and the first raw phase of block
  N+1 is -170, a raw difference of -340. When no jump of more than 180 in the opposite
  (upward) direction is found within \<^verbatim>\<open>glitchLimit\<close> samples, unwrapBuffer leaves the
  first sample at -170, and so does the smoothing that follows: the code unwraps at the
  end of the buffer only when the raw jump is upward (\<^verbatim>\<open>diff > 0\<close>), see
  \<open>unwrapBuffer_upward_edge\<close>.
\<close>

theorem downward_wrap_at_block_start_is_kept:
  assumes "wp ! 0 = - 170" and "1 \<le> gl"
    and "\<forall>j. 1 \<le> j \<and> int j \<le> gl \<and> j < n \<longrightarrow> \<not> wp ! j - wp ! (j - 1) > 180"
  shows "unwrapBuffer gl 170 wp n ! 0 = - 170 \<and>
         smoothBuffer gl 170 (unwrapBuffer gl 170 wp n) n ! 0 = - 170"
proof -
  have first: "unwrapBuffer gl 170 wp n ! 0 = - 170"
    using unwrapBuffer_downward_first [of wp 170 gl n] assms by simp
  then have "smoothBuffer gl 170 (unwrapBuffer gl 170 wp n) n = unwrapBuffer gl 170 wp n"
    by (intro smoothBuffer_large_step) simp
  with first show ?thesis by simp
qed

theorem downward_wrap_at_block_start_is_kept_witness:
  "[- 170, - 160] ! 0 = (- 170 :: real) \<and> (1 :: int) \<le> 1 \<and>
   unwrapBuffer 1 170 [- 170, - 160] 2 ! 0 = - 170 \<and>
   smoothBuffer 1 170 (unwrapBuffer 1 170 [- 170, - 160] 2) 2 ! 0 = - 170"
  using downward_wrap_at_block_start_is_kept [of "[- 170, - 160]" 1 2] by (simp add: less_Suc_eq)

text \<open>
  The claim as it was stated fails: on the block [-170, -160] after a last sample of 170,
  with \<^verbatim>\<open>glitchLimit = 1\<close> and no upward jump in the block, the first sample is not 190.
\<close>

theorem upward_unwrap_to_190_counterexample:
  "[- 170, - 160] ! 0 = (- 170 :: real) \<and> (1 :: int) \<le> 1 \<and>
   \<not> [- 170, - 160 :: real] ! 1 - [- 170, - 160] ! 0 > 180 \<and>
   unwrapBuffer 1 170 [- 170, - 160] 2 ! 0 \<noteq> 190"
  by (simp add: unwrapBuffer_def unwrapLoop.simps unwrapSearch.simps)

text \<open>
  C2. For a spectrum of length \<open>n \<ge> 1\<close>, hilbertManip scales bin 0 by \<open>1/n\<close>, every
  bin from 1 to \<open>\<lceil>n/2\<rceil> - 1\<close> by \<open>2/n\<close>, the Nyquist bin \<open>n/2\<close> of an even \<open>n\<close> by
  \<open>1/n\<close>, and sets every other bin to 0.
\<close>

theorem hilbertManip_scales_bins:
  assumes "n = length x" and "1 \<le> n"
  shows "length (hilbertManip x) = n \<and>
         hilbertManip x ! 0 = scaleR (1 / real n) (x ! 0) \<and>
         (\<forall>i. 1 \<le> i \<and> int i \<le> \<lceil>real n / 2\<rceil> - 1 \<longrightarrow> hilbertManip x ! i = scaleR (2 / real n) (x ! i)) \<and>
         (even n \<longrightarrow> hilbertManip x ! (n div 2) = scaleR (1 / real n) (x ! (n div 2))) \<and>
         (\<forall>i. i < n \<and> i \<noteq> 0 \<and> \<not> int i \<le> \<lceil>real n / 2\<rceil> - 1 \<and> \<not> (even n \<and> i = n div 2)
              \<longrightarrow> hilbertManip x ! i = 0)"
proof -
  from assms have "0 < length x" by (cases x) simp_all
  from nth_hilbertManip [OF this] assms
  have dc: "hilbertManip x ! 0 = scaleR (1 / real n) (x ! 0)"
    by (simp add: scaleR_conv_of_real)
  have pos: "hilbertManip x ! i = scaleR (2 / real n) (x ! i)"
    if "1 \<le> i \<and> int i \<le> \<lceil>real n / 2\<rceil> - 1" for i
  proof -
    from that have "i < n" unfolding ceiling_half by linarith
    with that assms show ?thesis by (simp add: nth_hilbertManip scaleR_conv_of_real)
  qed
  have nyq: "hilbertManip x ! (n div 2) = scaleR (1 / real n) (x ! (n div 2))" if "even n"
  proof -
    from that assms have "n div 2 < n" "\<not> int (n div 2) \<le> \<lceil>real n / 2\<rceil> - 1"
      unfolding ceiling_half by (auto elim!: evenE)
    with assms show ?thesis by (simp add: nth_hilbertManip scaleR_conv_of_real)
  qed
  have neg: "hilbertManip x ! i = 0"
    if "i < n \<and> i \<noteq> 0 \<and> \<not> int i \<le> \<lceil>real n / 2\<rceil> - 1 \<and> \<not> (even n \<and> i = n div 2)" for i
  proof -
    from that have "\<not> i \<le> n div 2" unfolding ceiling_half by presburger
    with that assms show ?thesis by (simp add: nth_hilbertManip)
  qed
  from assms dc pos nyq neg show ?thesis by simp
qed

theorem hilbertManip_scales_bins_witness:
  "hilbertManip [8, 4, 2, 6] ! 0 = 2 \<and> hilbertManip [8, 4, 2, 6] ! 1 = 2 \<and>
   hilbertManip [8, 4, 2, 6] ! 2 = 1 / 2 \<and> hilbertManip [8, 4, 2, 6] ! 3 = 0"
proof -
  let ?x = "[8, 4, 2, 6] :: complex list"
  have T: "length (hilbertManip ?x) = 4 \<and>
         hilbertManip ?x ! 0 = scaleR (1 / real 4) (?x ! 0) \<and>
         (\<forall>i. 1 \<le> i \<and> int i \<le> \<lceil>real 4 / 2\<rceil> - 1 \<longrightarrow> hilbertManip ?x ! i = scaleR (2 / real 4) (?x ! i)) \<and>
         (even (4 :: nat) \<longrightarrow> hilbertManip ?x ! (4 div 2) = scaleR (1 / real 4) (?x ! (4 div 2))) \<and>
         (\<forall>i. i < 4 \<and> i \<noteq> 0 \<and> \<not> int i \<le> \<lceil>real 4 / 2\<rceil> - 1 \<and> \<not> (even (4 :: nat) \<and> i = 4 div 2)
              \<longrightarrow> hilbertManip ?x ! i = 0)"
    using hilbertManip_scales_bins [of 4 ?x] by simp
  from T have a: "hilbertManip ?x ! 0 = 2" by (simp add: scaleR_conv_of_real)
  from T have "\<forall>i. 1 \<le> i \<and> int i \<le> \<lceil>real 4 / 2\<rceil> - 1 \<longrightarrow> hilbertManip ?x ! i = scaleR (2 / real 4) (?x ! i)"
    by blast
  from this [rule_format, of 1] have b: "hilbertManip ?x ! 1 = 2" by (simp add: scaleR_conv_of_real)
  from T have c: "hilbertManip ?x ! 2 = 1 / 2" by (simp add: scaleR_conv_of_real)
  from T have "\<forall>i. i < 4 \<and> i \<noteq> 0 \<and> \<not> int i \<le> \<lceil>real 4 / 2\<rceil> - 1 \<and> \<not> (even (4 :: nat) \<and> i = 4 div 2)
              \<longrightarrow> hilbertManip ?x ! i = 0"
    by blast
  from this [rule_format, of 3] have d: "hilbertManip ?x ! 3 = 0" by simp
  from a b c d show ?thesis by simp
qed

text \<open>
  C3. With \<^verbatim>\<open>glitchLimit = 0\<close>, unwrapBuffer and smoothBuffer return every block, of any
  length and for any last sample of the previous block, unchanged; hence the two calls
  at the end of the FULL_AR branch leave the block of raw phases as it is, and the block
  that \<^verbatim>\<open>process\<close> emits for a FULL_AR channel is the block of raw phases.
\<close>

theorem glitchLimit_zero_disables_correction:
  "unwrapBuffer 0 prev wp n = wp \<and> smoothBuffer 0 prev wp n = wp \<and>
   (glitchLimit cfg = 0 \<longrightarrow> unwrapAndSmooth cfg prev wp n = wp) \<and>
   (glitchLimit cfg = 0 \<and> shouldProcessChannel ch \<and>
    (processADC cfg \<or> (chanType ch \<noteq> ADC_CHANNEL \<and> chanType ch \<noteq> AUX_CHANNEL)) \<and>
    buffer \<noteq> [] \<and> chanState ch = FULL_AR \<longrightarrow>
      snd (snd (processChannel P cfg w ch buffer)) =
        snd (calcPhase P cfg (fst (snd (ingest P cfg w ch buffer)))
               (snd (snd (ingest P cfg w ch buffer))) (startIndexOf cfg buffer)))"
proof -
  have "snd (snd (processChannel P cfg w ch buffer)) =
        snd (calcPhase P cfg (fst (snd (ingest P cfg w ch buffer)))
               (snd (snd (ingest P cfg w ch buffer))) (startIndexOf cfg buffer))"
    if "glitchLimit cfg = 0" "shouldProcessChannel ch"
      "processADC cfg \<or> (chanType ch \<noteq> ADC_CHANNEL \<and> chanType ch \<noteq> AUX_CHANNEL)"
      "buffer \<noteq> []" "chanState ch = FULL_AR"
    using processChannel_FULL_AR [OF that(2-5)] that(1) by (simp add: unwrapAndSmooth_zero)
  then show ?thesis
    by (simp add: unwrapBuffer_def unwrapLoop_zero smoothBuffer_zero unwrapAndSmooth_zero)
qed

theorem glitchLimit_zero_disables_correction_witness:
  "unwrapBuffer 0 (- 170) [170, - 100, 175] 3 = [170, - 100, 175] \<and>
   smoothBuffer 0 100 [90, 150] 2 = [90, 150] \<and>
   unwrapAndSmooth (exampleSettings\<lparr>glitchLimit := 0\<rparr>) (- 170) [170, - 100, 175] 3 = [170, - 100, 175] \<and>
   snd (snd (processChannel examplePrims (exampleSettings\<lparr>glitchLimit := 0\<rparr>) noWarnings
               (exampleChannel FULL_AR (replicate 20 0) 100) [1, 2])) =
     snd (calcPhase examplePrims (exampleSettings\<lparr>glitchLimit := 0\<rparr>)
            (fst (snd (ingest examplePrims (exampleSettings\<lparr>glitchLimit := 0\<rparr>) noWarnings
                         (exampleChannel FULL_AR (replicate 20 0) 100) [1, 2])))
            (snd (snd (ingest examplePrims (exampleSettings\<lparr>glitchLimit := 0\<rparr>) noWarnings
                         (exampleChannel FULL_AR (replicate 20 0) 100) [1, 2])))
            (startIndexOf (exampleSettings\<lparr>glitchLimit := 0\<rparr>) [1, 2]))"
proof -
  note inst = glitchLimit_zero_disables_correction
    [where prev = "- 170" and wp = "[170, - 100, 175]" and n = 3
       and cfg = "exampleSettings\<lparr>glitchLimit := 0\<rparr>"
       and ch = "exampleChannel FULL_AR (replicate 20 0) 100" and buffer = "[1, 2]"
       and P = examplePrims and w = noWarnings]
  have smooth: "smoothBuffer 0 100 [90, 150] 2 = [90, 150]"
    using glitchLimit_zero_disables_correction
      [where prev = 100 and wp = "[90, 150]" and n = 2 and cfg = exampleSettings
         and ch = "exampleChannel FULL_AR (replicate 20 0) 100" and buffer = "[1, 2]"
         and P = examplePrims and w = noWarnings]
    by blast
  from inst smooth show ?thesis by simp
qed

text \<open>
  C4. The claim does not hold of the two threads together. Let the channel be full and
  the AR thread idle. The thread passes its test of the channel state and starts a fit;
  \<^verbatim>\<open>disable\<close> resets the channel to NOT_FULL and empties the fifo; the thread then
  finishes the fit and sets the state to FULL_AR. The channel goes from NOT_FULL to
  FULL_AR with an empty fifo and without passing through FULL_NO_AR after the reset.
  What \<^verbatim>\<open>process\<close> does to the state is as claimed (\<open>processChannel_state_forward\<close>,
  \<open>ingest_becomes_full_iff\<close>), and so is every sequence of events in which
  \<^verbatim>\<open>disable\<close> does not fall between the two actions of the thread (\<open>step_chain\<close>,
  \<open>runEvents_fifoAgrees\<close>).
\<close>

theorem stale_fit_sets_FULL_AR_after_disable:
  assumes "fitting s = None" and "chanState (chan s) \<noteq> NOT_FULL"
  shows "chanState (chan (runEvents P cfg s [ArCheck, Disable])) = NOT_FULL \<and>
         contents (fifoManager (chan (runEvents P cfg s [ArCheck, Disable]))) = [] \<and>
         chanState (chan (runEvents P cfg s [ArCheck, Disable, ArPublish])) = FULL_AR \<and>
         contents (fifoManager (chan (runEvents P cfg s [ArCheck, Disable, ArPublish]))) = []"
  using assms
  by (simp add: runEvents_def arCheck_def arPublish_def disable_def disableChannel_def reset_def)

theorem stale_fit_sets_FULL_AR_after_disable_witness:
  "chanState (chan (runEvents examplePrims exampleSettings
      \<lparr>warn = noWarnings, chan = exampleChannel NOT_FULL [] 0, fitting = None\<rparr>
      [Process (replicate 20 1)])) = FULL_NO_AR \<and>
   chanState (chan (runEvents examplePrims exampleSettings
      \<lparr>warn = noWarnings, chan = exampleChannel NOT_FULL [] 0, fitting = None\<rparr>
      [Process (replicate 20 1), ArCheck, Disable])) = NOT_FULL \<and>
   chanState (chan (runEvents examplePrims exampleSettings
      \<lparr>warn = noWarnings, chan = exampleChannel NOT_FULL [] 0, fitting = None\<rparr>
      [Process (replicate 20 1), ArCheck, Disable, ArPublish])) = FULL_AR \<and>
   contents (fifoManager (chan (runEvents examplePrims exampleSettings
      \<lparr>warn = noWarnings, chan = exampleChannel NOT_FULL [] 0, fitting = None\<rparr>
      [Process (replicate 20 1), ArCheck, Disable, ArPublish]))) = []"
proof -
  let ?s0 = "\<lparr>warn = noWarnings, chan = exampleChannel NOT_FULL [] 0, fitting = None\<rparr> :: unit system"
  let ?s1 = "step examplePrims exampleSettings ?s0 (Process (replicate 20 1))"
  have st: "chanState (chan ?s1) = FULL_NO_AR"
    by (simp add: split_def Let_def processChannel_chanState ingest_chanState exampleChannel_def
        exampleSettings_def getFreeSpace_def getNumReady_def startIndexOf_def)
  have fit: "fitting ?s1 = None" by (simp add: split_def Let_def)
  from st have "chanState (chan ?s1) \<noteq> NOT_FULL" by simp
  from stale_fit_sets_FULL_AR_after_disable [OF fit this, of examplePrims exampleSettings] st
  show ?thesis by (simp only: runEvents_Cons runEvents_Nil simp_thms)
qed

text \<open>
  C5. For a channel that is processed (enabled, not an excluded ADC or AUX channel, with
  a block that is not empty): in state NOT_FULL or FULL_NO_AR every newly processed
  sample, from \<^verbatim>\<open>startIndex\<close> on, is 0 in the output; in state FULL_AR the output is the
  unwrapped and smoothed block of raw phases, and the raw phase of the \<open>i\<close>-th newly
  processed sample is \<^verbatim>\<open>std::arg\<close> of the analytic signal at window offset
  \<^verbatim>\<open>historyLength - nSamplesToProcess + i\<close>, times \<^verbatim>\<open>180 / PI\<close> with the constant
  \<^verbatim>\<open>PI\<close> of the code.
\<close>

theorem output_is_zero_or_phase_by_state:
  assumes "shouldProcessChannel ch"
    and "processADC cfg \<or> (chanType ch \<noteq> ADC_CHANNEL \<and> chanType ch \<noteq> AUX_CHANNEL)"
    and "buffer \<noteq> []"
  shows "((chanState ch = NOT_FULL \<or> chanState ch = FULL_NO_AR) \<longrightarrow>
            (\<forall>i. startIndexOf cfg buffer \<le> i \<and> i < length buffer \<longrightarrow>
                 snd (snd (processChannel P cfg w ch buffer)) ! i = 0)) \<and>
         (chanState ch = FULL_AR \<longrightarrow>
            snd (snd (processChannel P cfg w ch buffer)) =
              unwrapAndSmooth cfg (lastSample ch)
                (snd (calcPhase P cfg (fst (snd (ingest P cfg w ch buffer)))
                        (snd (snd (ingest P cfg w ch buffer))) (startIndexOf cfg buffer)))
                (length buffer) \<and>
            (\<forall>i < length buffer - startIndexOf cfg buffer.
               snd (calcPhase P cfg (fst (snd (ingest P cfg w ch buffer)))
                      (snd (snd (ingest P cfg w ch buffer))) (startIndexOf cfg buffer))
                 ! (startIndexOf cfg buffer + i) =
               stdArg P
                 (hilbert P
                    (predictWindow cfg (dataToProcess ch)
                       (sharedDataBuffer (fst (snd (ingest P cfg w ch buffer)))) (arParams ch))
                  ! (historyLength cfg - (length buffer - startIndexOf cfg buffer) + i))
                 * (180 / PI)))"
proof (intro conjI impI)
  assume st: "chanState ch = NOT_FULL \<or> chanState ch = FULL_NO_AR"
  then have "chanState ch \<noteq> FULL_AR" by auto
  from processChannel_not_FULL_AR [OF assms this]
  show "\<forall>i. startIndexOf cfg buffer \<le> i \<and> i < length buffer \<longrightarrow>
                 snd (snd (processChannel P cfg w ch buffer)) ! i = 0"
    by (auto simp: nth_clear)
next
  assume "chanState ch = FULL_AR"
  from processChannel_FULL_AR [OF assms this]
  show "snd (snd (processChannel P cfg w ch buffer)) =
              unwrapAndSmooth cfg (lastSample ch)
                (snd (calcPhase P cfg (fst (snd (ingest P cfg w ch buffer)))
                        (snd (snd (ingest P cfg w ch buffer))) (startIndexOf cfg buffer)))
                (length buffer)" .
next
  assume "chanState ch = FULL_AR"
  show "\<forall>i < length buffer - startIndexOf cfg buffer.
               snd (calcPhase P cfg (fst (snd (ingest P cfg w ch buffer)))
                      (snd (snd (ingest P cfg w ch buffer))) (startIndexOf cfg buffer))
                 ! (startIndexOf cfg buffer + i) =
               stdArg P
                 (hilbert P
                    (predictWindow cfg (dataToProcess ch)
                       (sharedDataBuffer (fst (snd (ingest P cfg w ch buffer)))) (arParams ch))
                  ! (historyLength cfg - (length buffer - startIndexOf cfg buffer) + i))
                 * (180 / PI)"
    by (auto simp: calcPhase_def Let_def nth_writePhase startIndexOf_def)
qed

theorem output_is_zero_or_phase_by_state_witness:
  "snd (snd (processChannel examplePrims exampleSettings noWarnings
               (exampleChannel NOT_FULL [] 0) [1, 2])) ! 1 = 0 \<and>
   snd (calcPhase examplePrims exampleSettings
          (fst (snd (ingest examplePrims exampleSettings noWarnings
                       (exampleChannel FULL_AR (replicate 20 0) 0) [1, 2])))
          (snd (snd (ingest examplePrims exampleSettings noWarnings
                       (exampleChannel FULL_AR (replicate 20 0) 0) [1, 2])))
          (startIndexOf exampleSettings [1, 2])) ! 1 = 150"
proof -
  have a: "shouldProcessChannel (exampleChannel st h p)" for st h p by simp
  have b: "processADC exampleSettings \<or>
      (chanType (exampleChannel st h p) \<noteq> ADC_CHANNEL \<and> chanType (exampleChannel st h p) \<noteq> AUX_CHANNEL)"
    for st h p
    by simp
  have c: "[1, 2 :: real] \<noteq> []" by simp
  have s: "startIndexOf exampleSettings [1, 2] = 0"
    by (simp add: startIndexOf_def)
  note not_full = output_is_zero_or_phase_by_state [OF a b c, of NOT_FULL "[]" 0 examplePrims noWarnings, THEN conjunct1]
  then have "\<forall>i. startIndexOf exampleSettings [1, 2] \<le> i \<and> i < length [1, 2 :: real] \<longrightarrow>
          snd (snd (processChannel examplePrims exampleSettings noWarnings
                      (exampleChannel NOT_FULL [] 0) [1, 2])) ! i = 0"
    by simp
  from this [rule_format, of 1] have first: "snd (snd (processChannel examplePrims exampleSettings noWarnings
               (exampleChannel NOT_FULL [] 0) [1, 2])) ! 1 = 0"
    by (simp add: s)
  note full_ar = output_is_zero_or_phase_by_state [OF a b c, of FULL_AR "replicate 20 0" 0 examplePrims noWarnings, THEN conjunct2]
  then have "\<forall>i < length [1, 2 :: real] - startIndexOf exampleSettings [1, 2].
          snd (calcPhase examplePrims exampleSettings
                (fst (snd (ingest examplePrims exampleSettings noWarnings
                             (exampleChannel FULL_AR (replicate 20 0) 0) [1, 2])))
                (snd (snd (ingest examplePrims exampleSettings noWarnings
                             (exampleChannel FULL_AR (replicate 20 0) 0) [1, 2])))
                (startIndexOf exampleSettings [1, 2]))
            ! (startIndexOf exampleSettings [1, 2] + i) = 150"
    unfolding example_stdArg(1) by simp
  from this [rule_format, of 1] s have second: "snd (calcPhase examplePrims exampleSettings
          (fst (snd (ingest examplePrims exampleSettings noWarnings
                       (exampleChannel FULL_AR (replicate 20 0) 0) [1, 2])))
          (snd (snd (ingest examplePrims exampleSettings noWarnings
                       (exampleChannel FULL_AR (replicate 20 0) 0) [1, 2])))
          (startIndexOf exampleSettings [1, 2])) ! 1 = 150"
    by simp
  from first second show ?thesis by simp
qed

text \<open>
  C6. An overlong block is cut to its last \<^verbatim>\<open>historyLength\<close> samples
  (\<open>ingest_overlong_fifo\<close>), the warning is sent once (\<open>processChannel_overlong_warning\<close>,
  \<open>processChannel_warnings_kept\<close>) and the samples in front are cleared
  (\<open>overlong_block_front_cleared\<close>). For a FULL_AR channel the cleared samples do not
  stay 0 in the output, because unwrapping and smoothing run over the whole block: let
  the block be one sample longer than \<^verbatim>\<open>historyLength\<close>, the last sample of the previous
  block be between 0 and 180 and the first phase \<open>p\<close> of this block be larger; then the
  cleared first sample is emitted as the midpoint of the two.
\<close>

theorem overlong_block_front_sample_is_smoothed:
  assumes "shouldProcessChannel ch"
    and "processADC cfg \<or> (chanType ch \<noteq> ADC_CHANNEL \<and> chanType ch \<noteq> AUX_CHANNEL)"
    and "chanState ch = FULL_AR"
    and "length buffer = Suc (historyLength cfg)" and "1 \<le> historyLength cfg"
    and "1 \<le> glitchLimit cfg"
    and "0 < lastSample ch" and "lastSample ch < 180"
    and "stdArg P (hilbert P (predictWindow cfg (dataToProcess ch)
                    (sharedDataBuffer (fst (snd (ingest P cfg w ch buffer)))) (arParams ch)) ! 0)
           * (180 / PI) = p"
    and "lastSample ch < p" and "p \<le> 180"
  shows "snd (snd (processChannel P cfg w ch buffer)) ! 0 = lastSample ch + (p - lastSample ch) / 2"
proof -
  let ?ch1 = "fst (snd (ingest P cfg w ch buffer))"
  let ?wp1 = "snd (snd (ingest P cfg w ch buffer))"
  let ?n = "length buffer"
  let ?ls = "lastSample ch"
  let ?gl = "glitchLimit cfg"
  define raw where "raw = snd (calcPhase P cfg ?ch1 ?wp1 (startIndexOf cfg buffer))"
  have nonempty: "buffer \<noteq> []" using assms(4) by auto
  have s: "startIndexOf cfg buffer = 1" using assms(4) by (simp add: startIndexOf_def)
  have out: "snd (snd (processChannel P cfg w ch buffer)) = unwrapAndSmooth cfg ?ls raw ?n"
    unfolding raw_def using processChannel_FULL_AR [OF assms(1,2) nonempty assms(3)] .
  have len: "length raw = ?n" by (simp add: raw_def)
  have raw0: "raw ! 0 = 0"
    unfolding raw_def s using nth_ingest_front [of 0 cfg buffer P w ch]
    by (simp add: calcPhase_nth_front s)
  have raw1: "raw ! 1 = p"
    unfolding raw_def s using assms(4,5,9) by (simp add: calcPhase_nth)
  define u where "u = unwrapBuffer ?gl ?ls raw ?n"
  have step0: "unwrapLoop ?gl ?ls ?n raw 0 = unwrapLoop ?gl ?ls ?n raw (Suc 0)"
    using assms raw0 by (intro unwrapLoop_no_jump) auto
  have "u ! 0 = raw ! 0 \<and> u ! 1 = raw ! 1"
  proof (cases "Suc (Suc 0) < ?n")
    case True
    have "unwrapLoop ?gl ?ls ?n raw (Suc 0) = unwrapLoop ?gl ?ls ?n raw (Suc (Suc 0))"
      using True assms raw0 raw1 by (intro unwrapLoop_no_jump) auto
    with step0 show ?thesis by (simp add: u_def unwrapBuffer_def unwrapLoop_nth_before)
  next
    case False
    then show ?thesis using step0 by (simp add: u_def unwrapBuffer_def unwrapLoop_done)
  qed
  with raw0 raw1 have u0: "u ! 0 = 0" and u1: "u ! 1 = p" by simp_all
  have ulen: "length u = ?n" by (simp add: u_def len)
  have "smoothBuffer ?gl ?ls u ?n = interpolate ?ls (if u ! 1 > ?ls then u else u[1 := u ! 1 + 360]) 1"
    using assms u0 u1 ulen by (intro smoothBuffer_crossing) auto
  then have "smoothBuffer ?gl ?ls u ?n ! 0 = ?ls + (p - ?ls) / 2"
    using assms u1 ulen by (simp add: nth_interpolate)
  then show ?thesis by (simp add: out unwrapAndSmooth_def u_def)
qed


theorem overlong_block_front_sample_is_smoothed_witness:
  "snd (snd (processChannel examplePrims exampleSettings noWarnings
               (exampleChannel FULL_AR (replicate 20 0) 100) (replicate 21 1))) ! 0 = 125"
proof -
  let ?ch = "exampleChannel FULL_AR (replicate 20 0) 100"
  have "snd (snd (processChannel examplePrims exampleSettings noWarnings ?ch (replicate 21 1))) ! 0 =
          lastSample ?ch + (150 - lastSample ?ch) / 2"
    by (rule overlong_block_front_sample_is_smoothed) (simp_all add: example_stdArg)
  then show ?thesis by simp
qed

text \<open>
  C7. First part: the first sample of the block is below the last sample \<open>prev\<close> of
  the previous block by less than 180, and \<open>e\<close> is the first index from 1 to
  \<^verbatim>\<open>min(glitchLimit, nSamples - 1)\<close> at which the sample exceeds \<open>prev\<close>, or jumps up
  by more than 180 and exceeds \<open>prev\<close> once 360 is added. Then smoothBuffer puts the
  samples before \<open>e\<close> on the line from \<open>prev\<close> to the (adjusted) sample at \<open>e\<close>,
  the sample at \<open>e\<close> is that adjusted value and the samples after \<open>e\<close> are kept.
  Second part: when there is no such index, the block is returned unchanged.
\<close>

theorem smoothBuffer_interpolates_to_crossing:
  "(n = length wp \<and> wp ! 0 - prev < 0 \<and> wp ! 0 - prev > - 180 \<and>
    1 \<le> e \<and> int e \<le> min gl (int n - 1) \<and>
    (wp ! e > prev \<or> (wp ! e - wp ! (e - 1) > 180 \<and> wp ! e + 360 > prev)) \<and>
    (\<forall>j. 1 \<le> j \<and> j < e \<longrightarrow>
         \<not> (wp ! j > prev \<or> (wp ! j - wp ! (j - 1) > 180 \<and> wp ! j + 360 > prev)))
    \<longrightarrow>
      length (smoothBuffer gl prev wp n) = n \<and>
      (\<forall>i < e. smoothBuffer gl prev wp n ! i =
         prev + (real i + 1) * ((if wp ! e > prev then wp ! e else wp ! e + 360) - prev) / (real e + 1)) \<and>
      smoothBuffer gl prev wp n ! e = (if wp ! e > prev then wp ! e else wp ! e + 360) \<and>
      (\<forall>i. e < i \<and> i < n \<longrightarrow> smoothBuffer gl prev wp n ! i = wp ! i))
   \<and>
   ((\<forall>j. 1 \<le> j \<and> int j \<le> min gl (int n - 1) \<longrightarrow>
         \<not> (wp ! j > prev \<or> (wp ! j - wp ! (j - 1) > 180 \<and> wp ! j + 360 > prev)))
    \<longrightarrow> smoothBuffer gl prev wp n = wp)"
proof (rule conjI)
  show "(\<forall>j. 1 \<le> j \<and> int j \<le> min gl (int n - 1) \<longrightarrow>
         \<not> (wp ! j > prev \<or> (wp ! j - wp ! (j - 1) > 180 \<and> wp ! j + 360 > prev)))
    \<longrightarrow> smoothBuffer gl prev wp n = wp"
    using smoothBuffer_no_crossing by blast
next
  show "n = length wp \<and> wp ! 0 - prev < 0 \<and> wp ! 0 - prev > - 180 \<and>
    1 \<le> e \<and> int e \<le> min gl (int n - 1) \<and>
    (wp ! e > prev \<or> (wp ! e - wp ! (e - 1) > 180 \<and> wp ! e + 360 > prev)) \<and>
    (\<forall>j. 1 \<le> j \<and> j < e \<longrightarrow>
         \<not> (wp ! j > prev \<or> (wp ! j - wp ! (j - 1) > 180 \<and> wp ! j + 360 > prev)))
    \<longrightarrow>
      length (smoothBuffer gl prev wp n) = n \<and>
      (\<forall>i < e. smoothBuffer gl prev wp n ! i =
         prev + (real i + 1) * ((if wp ! e > prev then wp ! e else wp ! e + 360) - prev) / (real e + 1)) \<and>
      smoothBuffer gl prev wp n ! e = (if wp ! e > prev then wp ! e else wp ! e + 360) \<and>
      (\<forall>i. e < i \<and> i < n \<longrightarrow> smoothBuffer gl prev wp n ! i = wp ! i)"
  proof (rule impI)
    assume h: "n = length wp \<and> wp ! 0 - prev < 0 \<and> wp ! 0 - prev > - 180 \<and>
      1 \<le> e \<and> int e \<le> min gl (int n - 1) \<and>
      (wp ! e > prev \<or> (wp ! e - wp ! (e - 1) > 180 \<and> wp ! e + 360 > prev)) \<and>
      (\<forall>j. 1 \<le> j \<and> j < e \<longrightarrow>
           \<not> (wp ! j > prev \<or> (wp ! j - wp ! (j - 1) > 180 \<and> wp ! j + 360 > prev)))"
    define wp' where "wp' = (if wp ! e > prev then wp else wp[e := wp ! e + 360])"
    define pe where "pe = (if wp ! e > prev then wp ! e else wp ! e + 360)"
    from h have e_lt: "e < length wp" and n: "n = length wp" by auto
    have sb: "smoothBuffer gl prev wp n = interpolate prev wp' e"
      unfolding wp'_def using h by (intro smoothBuffer_crossing) blast+
    have len: "length wp' = length wp" by (simp add: wp'_def)
    have at_e: "wp' ! e = pe" using e_lt by (simp add: wp'_def pe_def)
    have other: "wp' ! i = wp ! i" if "i \<noteq> e" for i using that by (simp add: wp'_def)
    have 1: "length (smoothBuffer gl prev wp n) = n" unfolding sb by (simp add: len n)
    have 2: "smoothBuffer gl prev wp n ! i = prev + (real i + 1) * (pe - prev) / (real e + 1)"
      if "i < e" for i
      unfolding sb using that e_lt len at_e by (simp add: nth_interpolate)
    have 3: "smoothBuffer gl prev wp n ! e = pe"
      unfolding sb using at_e by (simp add: nth_interpolate)
    have 4: "smoothBuffer gl prev wp n ! i = wp ! i" if "e < i" for i
      unfolding sb using that other [of i] by (simp add: nth_interpolate)
    from 1 2 3 4 show "length (smoothBuffer gl prev wp n) = n \<and>
      (\<forall>i < e. smoothBuffer gl prev wp n ! i =
         prev + (real i + 1) * ((if wp ! e > prev then wp ! e else wp ! e + 360) - prev) / (real e + 1)) \<and>
      smoothBuffer gl prev wp n ! e = (if wp ! e > prev then wp ! e else wp ! e + 360) \<and>
      (\<forall>i. e < i \<and> i < n \<longrightarrow> smoothBuffer gl prev wp n ! i = wp ! i)"
      unfolding pe_def by blast
  qed
qed

theorem smoothBuffer_interpolates_to_crossing_witness:
  "smoothBuffer 5 100 [90, - 170, 170, - 160] 4 = [370 / 3, 440 / 3, 170, - 160] \<and>
   smoothBuffer 5 100 [90, 95, 97] 3 = [90, 95, 97]"
proof -
  have none: "\<forall>j. 1 \<le> j \<and> int j \<le> min 5 (int 3 - 1) \<longrightarrow>
      \<not> ([90, 95, 97] ! j > (100 :: real) \<or>
         ([90, 95, 97 :: real] ! j - [90, 95, 97] ! (j - 1) > 180 \<and> [90, 95, 97 :: real] ! j + 360 > 100))"
  proof (intro allI impI)
    fix j :: nat
    assume "1 \<le> j \<and> int j \<le> min 5 (int 3 - 1)"
    then have "j = 1 \<or> j = 2" by auto
    then show "\<not> ([90, 95, 97] ! j > (100 :: real) \<or>
         ([90, 95, 97 :: real] ! j - [90, 95, 97] ! (j - 1) > 180 \<and> [90, 95, 97 :: real] ! j + 360 > 100))"
      by auto
  qed
  have first: "\<forall>j. 1 \<le> j \<and> j < 2 \<longrightarrow>
      \<not> ([90, - 170, 170, - 160] ! j > (100 :: real) \<or>
         ([90, - 170, 170, - 160 :: real] ! j - [90, - 170, 170, - 160] ! (j - 1) > 180
           \<and> [90, - 170, 170, - 160 :: real] ! j + 360 > 100))"
  proof (intro allI impI)
    fix j :: nat
    assume "1 \<le> j \<and> j < 2"
    then have "j = 1" by auto
    then show "\<not> ([90, - 170, 170, - 160] ! j > (100 :: real) \<or>
         ([90, - 170, 170, - 160 :: real] ! j - [90, - 170, 170, - 160] ! (j - 1) > 180
           \<and> [90, - 170, 170, - 160 :: real] ! j + 360 > 100))"
      by simp
  qed
  have a: "smoothBuffer 5 100 [90, 95, 97] 3 = [90, 95, 97]"
    using smoothBuffer_interpolates_to_crossing [of 3 "[90, 95, 97]" 100 1 5] none by blast
  have "length (smoothBuffer 5 100 [90, - 170, 170, - 160] 4) = 4 \<and>
      (\<forall>i < 2. smoothBuffer 5 100 [90, - 170, 170, - 160] 4 ! i = 100 + (real i + 1) * (170 - 100) / (real 2 + 1)) \<and>
      smoothBuffer 5 100 [90, - 170, 170, - 160] 4 ! 2 = 170 \<and>
      (\<forall>i. 2 < i \<and> i < 4 \<longrightarrow> smoothBuffer 5 100 [90, - 170, 170, - 160] 4 ! i = [90, - 170, 170, - 160] ! i)"
    using smoothBuffer_interpolates_to_crossing [of 4 "[90, - 170, 170, - 160]" 100 2 5] first by simp
  then have b: "smoothBuffer 5 100 [90, - 170, 170, - 160] 4 = [370 / 3, 440 / 3, 170, - 160]"
    by (intro nth_equalityI) (auto simp: less_Suc_eq nth_Cons' numeral_eq_Suc)
  from a b show ?thesis by simp
qed

text \<open>
  C8. With AR_ORDER samples before \<open>writeStart\<close> and room for \<open>writeNum\<close> values,
  arPredict leaves the samples before \<open>writeStart\<close> as they are and every value it
  writes is the negated inner product of the coefficients with the AR_ORDER values
  just before it in the result, most recent first; for \<open>i \<ge> 1\<close> these include the
  predictions written earlier.
\<close>

theorem arPredict_is_linear_prediction:
  assumes "AR_ORDER \<le> writeStart" and "writeStart + writeNum \<le> length data"
  shows "(\<forall>i < writeNum.
            arPredict data writeStart writeNum params ! (writeStart + i) =
              - (\<Sum>k<AR_ORDER. params ! k * arPredict data writeStart writeNum params ! (writeStart + i - 1 - k))) \<and>
         (\<forall>j < writeStart. arPredict data writeStart writeNum params ! j = data ! j) \<and>
         length (arPredict data writeStart writeNum params) = length data"
  using assms
proof (induction writeNum)
  case 0
  then show ?case by (simp add: arPredict_zero)
next
  case (Suc m)
  let ?r = "arPredict data writeStart m params"
  let ?r' = "arPredict data writeStart (Suc m) params"
  from Suc have IH: "\<forall>i < m. ?r ! (writeStart + i) =
      - (\<Sum>k<AR_ORDER. params ! k * ?r ! (writeStart + i - 1 - k))"
    by simp
  have pos: "0 < writeStart" using Suc.prems by (simp add: AR_ORDER_def)
  have stable: "?r' ! j = ?r ! j" if "j < writeStart + m" for j
    using that by (rule nth_arPredict_stable)
  have "?r' ! (writeStart + i) = - (\<Sum>k<AR_ORDER. params ! k * ?r' ! (writeStart + i - 1 - k))"
    if "i < Suc m" for i
  proof (cases "i = m")
    case True
    have "?r' ! (writeStart + m) = - inner_product params ?r (writeStart + m)"
      using Suc.prems by (simp add: arPredict_Suc)
    also have "\<dots> = - (\<Sum>k<AR_ORDER. params ! k * ?r ! (writeStart + m - 1 - k))"
      by (simp add: inner_product_sum)
    also have "\<dots> = - (\<Sum>k<AR_ORDER. params ! k * ?r' ! (writeStart + m - 1 - k))"
      using pos by (simp add: stable)
    finally show ?thesis using True by simp
  next
    case False
    with that have "i < m" by simp
    then have "?r' ! (writeStart + i) = ?r ! (writeStart + i)" by (simp add: stable)
    also have "\<dots> = - (\<Sum>k<AR_ORDER. params ! k * ?r ! (writeStart + i - 1 - k))"
      using IH \<open>i < m\<close> by simp
    also have "\<dots> = - (\<Sum>k<AR_ORDER. params ! k * ?r' ! (writeStart + i - 1 - k))"
      using \<open>i < m\<close> pos by (simp add: stable)
    finally show ?thesis .
  qed
  then show ?case by (simp add: nth_arPredict_outside)
qed


theorem arPredict_is_linear_prediction_witness:
  "arPredict (replicate 19 0 @ [5, 0, 0]) 20 2 (1 # replicate 19 0) ! 20 = - 5 \<and>
   arPredict (replicate 19 0 @ [5, 0, 0]) 20 2 (1 # replicate 19 0) ! 21 = 5"
proof -
  let ?d = "replicate 19 0 @ [5, 0, 0] :: real list"
  let ?p = "1 # replicate 19 0 :: real list"
  let ?r = "arPredict ?d 20 2 ?p"
  have T: "(\<forall>i < 2. ?r ! (20 + i) = - (\<Sum>k<AR_ORDER. ?p ! k * ?r ! (20 + i - 1 - k))) \<and>
           (\<forall>j < 20. ?r ! j = ?d ! j) \<and> length ?r = length ?d"
    using arPredict_is_linear_prediction [of 20 2 ?d ?p] by (simp add: AR_ORDER_def)
  have split: "(\<Sum>k<AR_ORDER. ?p ! k * f k) = f 0" for f :: "nat \<Rightarrow> real"
  proof -
    have "(\<Sum>k<AR_ORDER. ?p ! k * f k) = (\<Sum>k<AR_ORDER. if k = 0 then f 0 else 0)"
      by (intro sum.cong) (auto simp: AR_ORDER_def nth_Cons')
    also have "\<dots> = f 0" by (simp add: AR_ORDER_def)
    finally show ?thesis .
  qed
  from T have A: "\<forall>i < 2. ?r ! (20 + i) = - (\<Sum>k<AR_ORDER. ?p ! k * ?r ! (20 + i - 1 - k))"
    and B: "\<forall>j < 20. ?r ! j = ?d ! j"
    by blast+
  from A [rule_format, of 0, unfolded split] have a: "?r ! 20 = - ?r ! 19" by simp
  from B [rule_format, of 19] have b: "?r ! 19 = 5" by (simp add: nth_append)
  from A [rule_format, of 1, unfolded split] have c: "?r ! 21 = - ?r ! 20" by simp
  from a b c show ?thesis by simp
qed

text \<open>
  C9. With \<^verbatim>\<open>numFuture = 0\<close> the block that \<^verbatim>\<open>process\<close> emits for a channel does not
  depend on the AR parameters of the channel: the prediction loop writes nothing.
\<close>

theorem no_future_output_ignores_arParams:
  "numFuture cfg = 0 \<Longrightarrow>
     snd (snd (processChannel P cfg w (ch\<lparr>arParams := p1\<rparr>) buffer)) =
     snd (snd (processChannel P cfg w (ch\<lparr>arParams := p2\<rparr>) buffer))"
  by (simp add: processChannel_no_future)

theorem no_future_output_ignores_arParams_witness:
  "snd (snd (processChannel examplePrims (exampleSettings\<lparr>numFuture := 0, historyLength := 512\<rparr>)
               noWarnings
               ((exampleChannel FULL_AR [] 0)
                  \<lparr>fifoManager := \<lparr>bufferSize = 513, contents = replicate 512 0\<rparr>,
                   sharedDataBuffer := replicate 512 0, arParams := replicate 20 1\<rparr>) [1, 2])) =
   snd (snd (processChannel examplePrims (exampleSettings\<lparr>numFuture := 0, historyLength := 512\<rparr>)
               noWarnings
               ((exampleChannel FULL_AR [] 0)
                  \<lparr>fifoManager := \<lparr>bufferSize = 513, contents = replicate 512 0\<rparr>,
                   sharedDataBuffer := replicate 512 0, arParams := replicate 20 2\<rparr>) [1, 2]))"
  by (rule no_future_output_ignores_arParams) simp

text \<open>
  C10. A channel that is disabled, or is an ADC or AUX channel while \<^verbatim>\<open>processADC\<close> is
  off, or whose block is empty, comes out of \<^verbatim>\<open>process\<close> with its block and every
  field of its state (filter, fifo, channel state, shared buffer, last sample) unchanged.
\<close>

theorem skipped_channel_is_unchanged:
  assumes "i < length chs" and "i < length buffers"
    and "\<not> shouldProcessChannel (chs ! i)
         \<or> (\<not> processADC cfg \<and> (chanType (chs ! i) = ADC_CHANNEL \<or> chanType (chs ! i) = AUX_CHANNEL))
         \<or> buffers ! i = []"
  shows "fst (snd (process P cfg w chs buffers)) ! i = chs ! i \<and>
         snd (snd (process P cfg w chs buffers)) ! i = buffers ! i"
  using assms
proof (induction P cfg w chs buffers arbitrary: i rule: process.induct)
  case (1 P cfg w ch chs buffer buffers)
  show ?case
  proof (cases i)
    case 0
    with "1.prems" have "processChannel P cfg w ch buffer = (w, ch, buffer)"
      by (intro processChannel_skip) simp
    with 0 show ?thesis by (simp add: split_def Let_def)
  next
    case (Suc k)
    obtain w1 ch1 buffer1 where pc: "processChannel P cfg w ch buffer = (w1, ch1, buffer1)"
      by (metis prod_cases3)
    from "1.prems" Suc have "k < length chs" "k < length buffers"
      and "\<not> shouldProcessChannel (chs ! k)
         \<or> (\<not> processADC cfg \<and> (chanType (chs ! k) = ADC_CHANNEL \<or> chanType (chs ! k) = AUX_CHANNEL))
         \<or> buffers ! k = []"
      by simp_all
    from "1.IH" [OF refl pc [symmetric] refl this]
    show ?thesis using Suc pc by (simp add: split_def Let_def)
  qed
qed simp_all

theorem skipped_channel_is_unchanged_witness:
  "fst (snd (process examplePrims exampleSettings noWarnings
       [(exampleChannel FULL_AR (replicate 20 0) 90)\<lparr>shouldProcessChannel := False\<rparr>,
        (exampleChannel FULL_AR (replicate 20 0) 90)\<lparr>chanType := ADC_CHANNEL\<rparr>]
       [[1, 2], [3, 4]])) ! 1 = (exampleChannel FULL_AR (replicate 20 0) 90)\<lparr>chanType := ADC_CHANNEL\<rparr> \<and>
   snd (snd (process examplePrims exampleSettings noWarnings
       [(exampleChannel FULL_AR (replicate 20 0) 90)\<lparr>shouldProcessChannel := False\<rparr>,
        (exampleChannel FULL_AR (replicate 20 0) 90)\<lparr>chanType := ADC_CHANNEL\<rparr>]
       [[1, 2], [3, 4]])) ! 1 = [3, 4]"
  using skipped_channel_is_unchanged [of 1 "[(exampleChannel FULL_AR (replicate 20 0) 90)\<lparr>shouldProcessChannel := False\<rparr>,
        (exampleChannel FULL_AR (replicate 20 0) 90)\<lparr>chanType := ADC_CHANNEL\<rparr>]"
       "[[1, 2], [3, 4]]" exampleSettings examplePrims noWarnings]
  by simp

end
